theory Spec2Isabelle
  imports Main "HOL-Library.Stream"
begin

section \<open>Data model of \<^verbatim>\<open>Asn1Container\<close> (asn1fuzz.py, lines 7-29)\<close>

text \<open>
  Exceptions of the Python run time that the generator can raise. Every \<^verbatim>\<open>raise\<close> of the
  source and every failing library call is a value \<open>Inl e\<close> of the model.
\<close>

datatype pyerror = ValueError | IndexError | TypeError | AttributeError | KeyError

text \<open>
  The values \<^verbatim>\<open>fuzz\<close> returns: \<^verbatim>\<open>None\<close>, integers, booleans, strings, byte strings,
  tuples, dictionaries (insertion ordered) and lists.
\<close>

datatype val =
    VNone
  | VInt int
  | VBool bool
  | VStr string
  | VBytes "nat list"
  | VTuple "val list"
  | VDict "(string \<times> val) list"
  | VList "val list"

text \<open>
  The attribute \<^verbatim>\<open>nested\<close> is dynamically typed: \<^verbatim>\<open>None\<close>, a dictionary from field names to
  containers (SEQUENCE, CHOICE, OPEN_TYPE, ANY), one container (SEQUENCE OF), a list of labels
  (ENUMERATED, named bits of a BIT STRING), or, for an EXPANDABLE node, the schema object
  whose \<^verbatim>\<open>get_proto\<close> builds the subtree; that object belongs to the schema layer and is a
  handle here. A dictionary is an association list in insertion order; Python dictionaries
  have pairwise distinct keys.

  The attribute \<^verbatim>\<open>range\<close> is \<^verbatim>\<open>None\<close> or a tuple whose entries are integers or \<^verbatim>\<open>None\<close>;
  it is called \<open>crange\<close> here. The objects form a tree: no container is shared between two
  parents.
\<close>

datatype nested_t =
    NNone
  | NDict "(string \<times> container) list"
  | NElem container
  | NLabels "string list"
  | NProto nat
and container =
  Container (unique_ident: string) (asn1_type: string) (optional: bool) (nested: nested_t)
    (crange: "int option list option") (sequence_member_count: int) (fully_covered: bool)

fun set_nested :: "nested_t \<Rightarrow> container \<Rightarrow> container" where
  "set_nested n' (Container i t opt n r s f) = Container i t opt n' r s f"

fun set_crange :: "int option list option \<Rightarrow> container \<Rightarrow> container" where
  "set_crange r' (Container i t opt n r s f) = Container i t opt n r' s f"

fun set_fully_covered :: "bool \<Rightarrow> container \<Rightarrow> container" where
  "set_fully_covered f' (Container i t opt n r s f) = Container i t opt n r s f'"

text \<open>The \<^verbatim>\<open>match self.asn1_type\<close> statements classify the type string.\<close>

datatype kind =
    K_INTEGER | K_ENUMERATED | K_BOOLEAN | K_OCTET_STRING | K_BIT_STRING | K_CHARSTRING
  | K_NumericString | K_NULL | K_EXPANDABLE | K_SEQUENCE | K_CHOICE | K_SEQUENCE_OF | K_OTHER

definition kind_of :: "string \<Rightarrow> kind" where
  "kind_of t =
     (if t = ''INTEGER'' then K_INTEGER
      else if t = ''ENUMERATED'' then K_ENUMERATED
      else if t = ''BOOLEAN'' then K_BOOLEAN
      else if t = ''OCTET STRING'' then K_OCTET_STRING
      else if t = ''BIT STRING'' then K_BIT_STRING
      else if t = ''IA5String'' \<or> t = ''UTF8String'' then K_CHARSTRING
      else if t = ''NumericString'' then K_NumericString
      else if t = ''NULL'' then K_NULL
      else if t = ''EXPANDABLE'' then K_EXPANDABLE
      else if t = ''SEQUENCE'' then K_SEQUENCE
      else if t = ''CHOICE'' \<or> t = ''OPEN_TYPE'' \<or> t = ''ANY'' then K_CHOICE
      else if t = ''SEQUENCE OF'' then K_SEQUENCE_OF
      else K_OTHER)"

section \<open>The random source\<close>

text \<open>
  Python's module \<^verbatim>\<open>random\<close> is a hidden global state. Here it is an infinite stream of raw
  draws, consumed from the front; a draw below \<open>n\<close> is the next raw draw modulo \<open>n\<close>, so every
  outcome the library can produce is produced by some stream. The functions below follow
  CPython's \<^verbatim>\<open>random.py\<close>.
\<close>

type_synonym rng = "nat stream"

definition randbelow :: "nat \<Rightarrow> rng \<Rightarrow> nat \<times> rng" where
  "randbelow n g = (shd g mod n, stl g)"

text \<open>\<^verbatim>\<open>random.randrange(start, stop, step)\<close> on integers: \<^verbatim>\<open>ValueError\<close> on an empty range.\<close>

definition randrange :: "int \<Rightarrow> int \<Rightarrow> int \<Rightarrow> rng \<Rightarrow> (pyerror + int) \<times> rng" where
  "randrange start stop step g =
     (let width = stop - start in
      if step = 1 then
        (if 0 < width then
           (case randbelow (nat width) g of (k, g') \<Rightarrow> (Inr (start + int k), g'))
         else (Inl ValueError, g))
      else if step = 0 then (Inl ValueError, g)
      else
        (let n = (if 0 < step then (width + step - 1) div step else (width + step + 1) div step)
         in if n \<le> 0 then (Inl ValueError, g)
            else (case randbelow (nat n) g of (k, g') \<Rightarrow> (Inr (start + step * int k), g'))))"

text \<open>
  The same call with arguments that may be \<^verbatim>\<open>None\<close>: a \<^verbatim>\<open>None\<close> start is a \<^verbatim>\<open>TypeError\<close>; a
  \<^verbatim>\<open>None\<close> stop with step 1 draws below \<open>start\<close>.
\<close>

definition py_randrange ::
  "int option \<Rightarrow> int option \<Rightarrow> int \<Rightarrow> rng \<Rightarrow> (pyerror + int) \<times> rng" where
  "py_randrange start stop step g =
     (case start of
        None \<Rightarrow> (Inl TypeError, g)
      | Some a \<Rightarrow>
          (case stop of
             None \<Rightarrow>
               (if step \<noteq> 1 then (Inl TypeError, g)
                else if 0 < a then
                  (case randbelow (nat a) g of (k, g') \<Rightarrow> (Inr (int k), g'))
                else (Inl ValueError, g))
           | Some b \<Rightarrow> randrange a b step g))"

text \<open>\<^verbatim>\<open>better_randrange\<close> (lines 53-57).\<close>

definition better_randrange ::
  "int option \<Rightarrow> int option \<Rightarrow> int \<Rightarrow> rng \<Rightarrow> (pyerror + int option) \<times> rng" where
  "better_randrange start stop step g =
     (if start = stop then (Inr start, g)
      else (case py_randrange start stop step g of
              (Inl e, g') \<Rightarrow> (Inl e, g')
            | (Inr v, g') \<Rightarrow> (Inr (Some v), g')))"

text \<open>\<^verbatim>\<open>random.choice(seq)\<close>: \<^verbatim>\<open>IndexError\<close> on an empty sequence.\<close>

definition choice :: "'a list \<Rightarrow> rng \<Rightarrow> (pyerror + 'a) \<times> rng" where
  "choice xs g =
     (if xs = [] then (Inl IndexError, g)
      else (case randbelow (length xs) g of (k, g') \<Rightarrow> (Inr (xs ! k), g')))"

text \<open>\<^verbatim>\<open>random.randbytes(n)\<close>: \<^verbatim>\<open>TypeError\<close> on \<^verbatim>\<open>None\<close>, \<^verbatim>\<open>ValueError\<close> on a negative count.\<close>

definition randbytes :: "int option \<Rightarrow> rng \<Rightarrow> (pyerror + val) \<times> rng" where
  "randbytes n g =
     (case n of
        None \<Rightarrow> (Inl TypeError, g)
      | Some k \<Rightarrow>
          (if k < 0 then (Inl ValueError, g)
           else (Inr (VBytes (map (\<lambda>b. b mod 256) (stake (nat k) g))), sdrop (nat k) g)))"

text \<open>
  \<^verbatim>\<open>generate_random_ascii_string\<close> (lines 47-48) and \<^verbatim>\<open>generate_random_number\<close> (lines 50-51):
  one draw for each position; \<^verbatim>\<open>range(length)\<close> is empty for a negative length and a
  \<^verbatim>\<open>TypeError\<close> for \<^verbatim>\<open>None\<close>.
\<close>

definition ascii_alphabet :: string where
  "ascii_alphabet = ''ABCDEFGHIJKLMNOPQRSTUVWXYZ0123456789''"

definition digit_alphabet :: string where
  "digit_alphabet = ''012345678''"

definition generate_from :: "string \<Rightarrow> int option \<Rightarrow> rng \<Rightarrow> (pyerror + val) \<times> rng" where
  "generate_from alphabet n g =
     (case n of
        None \<Rightarrow> (Inl TypeError, g)
      | Some k \<Rightarrow>
          (Inr (VStr (map (\<lambda>d. alphabet ! (d mod length alphabet)) (stake (nat k) g))),
           sdrop (nat k) g))"

definition generate_random_ascii_string :: "int option \<Rightarrow> rng \<Rightarrow> (pyerror + val) \<times> rng" where
  "generate_random_ascii_string = generate_from ascii_alphabet"

definition generate_random_number :: "int option \<Rightarrow> rng \<Rightarrow> (pyerror + val) \<times> rng" where
  "generate_random_number = generate_from digit_alphabet"

text \<open>Indexing a tuple: \<^verbatim>\<open>IndexError\<close> past its end.\<close>

definition idx :: "'a list \<Rightarrow> nat \<Rightarrow> pyerror + 'a" where
  "idx xs i = (if i < length xs then Inr (xs ! i) else Inl IndexError)"

definition opt_val :: "int option \<Rightarrow> val" where
  "opt_val x = (case x of None \<Rightarrow> VNone | Some i \<Rightarrow> VInt i)"

section \<open>Generation of scalar kinds (\<^verbatim>\<open>fuzz\<close>, lines 76-123)\<close>

text \<open>Sequencing of two steps that may raise and that consume randomness.\<close>

definition and_then ::
  "(pyerror + 'a) \<times> rng \<Rightarrow> ('a \<Rightarrow> rng \<Rightarrow> (pyerror + 'b) \<times> rng) \<Rightarrow> (pyerror + 'b) \<times> rng" where
  "and_then x f = (case x of (Inl e, g') \<Rightarrow> (Inl e, g') | (Inr v, g') \<Rightarrow> f v g')"

definition returning :: "('a \<Rightarrow> val) \<Rightarrow> (pyerror + 'a) \<times> rng \<Rightarrow> (pyerror + val) \<times> rng" where
  "returning h x = and_then x (\<lambda>v g'. (Inr (h v), g'))"

text \<open>INTEGER, lines 76-84.\<close>

definition fuzz_INTEGER :: "container \<Rightarrow> rng \<Rightarrow> (pyerror + val) \<times> rng" where
  "fuzz_INTEGER c g =
     (case crange c of
        None \<Rightarrow> returning VInt (randrange 0 128 1 g)
      | Some r \<Rightarrow>
          (case idx r 1 of
             Inl e \<Rightarrow> (Inl e, g)
           | Inr None \<Rightarrow> returning VInt (py_randrange (r ! 0) (Some 128) 1 g)
           | Inr (Some hi) \<Rightarrow>
               (if r ! 0 = Some hi then (Inr (opt_val (r ! 0)), g)
                else returning VInt (py_randrange (r ! 0) (Some hi) 1 g))))"

text \<open>
  ENUMERATED, lines 85-86, and BOOLEAN, lines 87-88. \<^verbatim>\<open>random.choice\<close> takes the length of its
  argument and indexes it by a number: a dictionary has no such key, the other shapes have no
  length.
\<close>

definition fuzz_ENUMERATED :: "container \<Rightarrow> rng \<Rightarrow> (pyerror + val) \<times> rng" where
  "fuzz_ENUMERATED c g =
     (case nested c of
        NLabels ls \<Rightarrow> returning VStr (choice ls g)
      | NDict kvs \<Rightarrow> (if kvs = [] then (Inl IndexError, g) else (Inl KeyError, stl g))
      | _ \<Rightarrow> (Inl TypeError, g))"

definition fuzz_BOOLEAN :: "rng \<Rightarrow> (pyerror + val) \<times> rng" where
  "fuzz_BOOLEAN g = returning VBool (choice [True, False] g)"

text \<open>OCTET STRING, lines 89-95.\<close>

definition fuzz_OCTET_STRING :: "container \<Rightarrow> rng \<Rightarrow> (pyerror + val) \<times> rng" where
  "fuzz_OCTET_STRING c g =
     (case crange c of
        None \<Rightarrow> and_then (randrange 0 128 1 g) (\<lambda>n. randbytes (Some n))
      | Some r \<Rightarrow>
          (case idx r 1 of
             Inl e \<Rightarrow> (Inl e, g)
           | Inr None \<Rightarrow> and_then (better_randrange (r ! 0) (Some 128) 1 g) randbytes
           | Inr (Some hi) \<Rightarrow> and_then (better_randrange (r ! 0) (Some hi) 1 g) randbytes))"

text \<open>BIT STRING, lines 96-106; \<^verbatim>\<open>return_val\<close> stays \<^verbatim>\<open>None\<close> when neither attribute is set.\<close>

definition nested_len :: "nested_t \<Rightarrow> pyerror + nat" where
  "nested_len n =
     (case n of
        NLabels ls \<Rightarrow> Inr (length ls)
      | NDict kvs \<Rightarrow> Inr (length kvs)
      | _ \<Rightarrow> Inl TypeError)"

definition named_bits_value :: "container \<Rightarrow> rng \<Rightarrow> (pyerror + int option) \<times> rng" where
  "named_bits_value c g =
     (case nested_len (nested c) of
        Inl e \<Rightarrow> (Inl e, g)
      | Inr l \<Rightarrow> better_randrange (Some 0) (Some (2 ^ l - 1)) 1 g)"

definition fuzz_BIT_STRING :: "container \<Rightarrow> rng \<Rightarrow> (pyerror + val) \<times> rng" where
  "fuzz_BIT_STRING c g =
     (case crange c of
        Some r \<Rightarrow>
          (if nested c \<noteq> NNone then
             and_then (named_bits_value c g)
               (\<lambda>v g'. case idx r 1 of
                          Inl e \<Rightarrow> (Inl e, g')
                        | Inr x \<Rightarrow> (Inr (VTuple [opt_val v, opt_val x]), g'))
           else
             (case idx r 0 of
                Inl e \<Rightarrow> (Inl e, g)
              | Inr lo \<Rightarrow>
                  (case idx r 1 of
                     Inl e \<Rightarrow> (Inl e, g)
                   | Inr hi \<Rightarrow>
                       and_then (better_randrange lo hi 1 g)
                         (\<lambda>v g'. case idx r 2 of
                                    Inl e \<Rightarrow> (Inl e, g')
                                  | Inr x \<Rightarrow> (Inr (VTuple [opt_val v, opt_val x]), g')))))
      | None \<Rightarrow>
          (if nested c \<noteq> NNone then
             and_then (named_bits_value c g) (\<lambda>v g'. (Inr (VTuple [opt_val v, VInt 8]), g'))
           else (Inr VNone, g)))"

text \<open>IA5String and UTF8String, lines 108-115; NumericString, lines 116-121.\<close>

definition fuzz_CHARSTRING :: "container \<Rightarrow> rng \<Rightarrow> (pyerror + val) \<times> rng" where
  "fuzz_CHARSTRING c g =
     (case crange c of
        None \<Rightarrow> generate_random_ascii_string (Some 128) g
      | Some r \<Rightarrow>
          (case idx r 0 of
             Inl e \<Rightarrow> (Inl e, g)
           | Inr lo \<Rightarrow>
               (case idx r 1 of
                  Inl e \<Rightarrow> (Inl e, g)
                | Inr hi \<Rightarrow>
                    (if lo = hi then generate_random_ascii_string lo g
                     else and_then (py_randrange lo hi 1 g)
                            (\<lambda>n. generate_random_ascii_string (Some n))))))"

definition fuzz_NumericString :: "container \<Rightarrow> rng \<Rightarrow> (pyerror + val) \<times> rng" where
  "fuzz_NumericString c g =
     (case crange c of
        None \<Rightarrow> and_then (randrange 0 256 1 g) (\<lambda>n. generate_random_number (Some n))
      | Some r \<Rightarrow>
          (case idx r 0 of
             Inl e \<Rightarrow> (Inl e, g)
           | Inr lo \<Rightarrow>
               (case idx r 1 of
                  Inl e \<Rightarrow> (Inl e, g)
                | Inr hi \<Rightarrow> and_then (better_randrange lo hi 1 g) generate_random_number)))"

section \<open>Generation of constructed kinds (\<^verbatim>\<open>fuzz\<close>, lines 126-183)\<close>

text \<open>
  SEQUENCE, lines 129-134: whether a field is left out. With an allowlist the field is left
  out iff its identifier is not in the list; otherwise an optional field draws a coin, and the
  coin only counts when generation is not coverage aware or the SEQUENCE is fully covered.
  \<^verbatim>\<open>and\<close> short-circuits, so a mandatory field draws nothing.
\<close>

definition field_skipped ::
  "string set option \<Rightarrow> bool \<Rightarrow> bool \<Rightarrow> container \<Rightarrow> rng \<Rightarrow> bool \<times> rng" where
  "field_skipped allowlist coverage_aware self_covered value g =
     (case allowlist of
        Some A \<Rightarrow> (unique_ident value \<notin> A, g)
      | None \<Rightarrow>
          (if optional value then
             (case randbelow 2 g of
                (k, g') \<Rightarrow> ([True, False] ! k \<and> (\<not> coverage_aware \<or> self_covered), g'))
           else (False, g)))"

text \<open>\<^verbatim>\<open>retNested[key] = fuzzed_value\<close>: assignment to a dictionary.\<close>

fun dict_set :: "(string \<times> 'a) list \<Rightarrow> string \<Rightarrow> 'a \<Rightarrow> (string \<times> 'a) list" where
  "dict_set [] key v = [(key, v)]"
| "dict_set ((k, x) # d) key v = (if k = key then (k, v) # d else (k, x) # dict_set d key v)"

text \<open>
  CHOICE, OPEN_TYPE and ANY, lines 141-145 and 152-156: the candidates are the children, or
  the children not yet fully covered when generation is coverage aware and there is one; the
  key is drawn among them, without a draw when there is one candidate.
\<close>

definition nested_filtered :: "bool \<Rightarrow> (string \<times> container) list \<Rightarrow> (string \<times> container) list" where
  "nested_filtered coverage_aware kvs =
     (if coverage_aware then
        (let filtered = filter (\<lambda>x. \<not> fully_covered (snd x)) kvs
         in if 0 < length filtered then filtered else kvs)
      else kvs)"

definition select_key :: "bool \<Rightarrow> (string \<times> container) list \<Rightarrow> rng \<Rightarrow> (pyerror + string) \<times> rng" where
  "select_key coverage_aware kvs g =
     (let possible_choices = map fst (nested_filtered coverage_aware kvs)
      in if 1 < length possible_choices then choice possible_choices g
         else (idx possible_choices 0, g))"

text \<open>
  The child object that is fuzzed is mutated in place: its entry of the dictionary is
  replaced. \<open>put_first P v\<close> replaces the value of the first entry that satisfies \<open>P\<close>;
  \<open>put_child key v\<close> the value under \<open>key\<close>.
\<close>

fun put_first ::
  "(string \<times> container \<Rightarrow> bool) \<Rightarrow> container \<Rightarrow> (string \<times> container) list
    \<Rightarrow> (string \<times> container) list" where
  "put_first P v [] = []"
| "put_first P v (kv # d) = (if P kv then (fst kv, v) # d else kv # put_first P v d)"

definition put_child ::
  "string \<Rightarrow> container \<Rightarrow> (string \<times> container) list \<Rightarrow> (string \<times> container) list" where
  "put_child key = put_first (\<lambda>x. fst x = key)"

text \<open>
  SEQUENCE OF, lines 162-178: the number of elements. The open-ended regime overwrites
  \<^verbatim>\<open>self.range\<close> (line 167); the container is returned with the count.
  \<open>open_ended_count\<close> is lines 169-171, on the entry \<^verbatim>\<open>self.range[0]\<close> as it is then.
\<close>

definition open_ended_count ::
  "int \<Rightarrow> int option \<Rightarrow> container \<Rightarrow> rng \<Rightarrow> (pyerror + int) \<times> container \<times> rng" where
  "open_ended_count max_seq_of_count range0 c g =
     (case range0 of
        None \<Rightarrow> (Inl TypeError, c, g)
      | Some lo \<Rightarrow>
          (let maxValue = max lo max_seq_of_count
           in if lo \<noteq> maxValue then
                (case randrange lo maxValue 1 g of (x, g') \<Rightarrow> (x, c, g'))
              else (Inr maxValue, c, g)))"

definition seq_of_count :: "int \<Rightarrow> container \<Rightarrow> rng \<Rightarrow> (pyerror + int) \<times> container \<times> rng" where
  "seq_of_count max_seq_of_count c g =
     (case crange c of
        None \<Rightarrow>
          (if max_seq_of_count \<noteq> 1 then
             (case randrange 1 max_seq_of_count 1 g of (x, g') \<Rightarrow> (x, c, g'))
           else (Inr 1, c, g))
      | Some r \<Rightarrow>
          (case idx r 1 of
             Inl e \<Rightarrow> (Inl e, c, g)
           | Inr None \<Rightarrow>
               (if \<not> fully_covered c \<and> r ! 0 = Some 0 then
                  (case idx r 2 of
                     Inl e \<Rightarrow> (Inl e, c, g)
                   | Inr st \<Rightarrow>
                       open_ended_count max_seq_of_count (Some 1)
                         (set_crange (Some [Some 1, r ! 1, st]) c) g)
                else open_ended_count max_seq_of_count (r ! 0) c g)
           | Inr (Some hi) \<Rightarrow>
               (case idx r 2 of
                  Inl e \<Rightarrow> (Inl e, c, g)
                | Inr st \<Rightarrow>
                    (let steps = (case st of None \<Rightarrow> 1 | Some s \<Rightarrow> s)
                     in case r ! 0 of
                          None \<Rightarrow> (Inl TypeError, c, g)
                        | Some lo \<Rightarrow>
                            (let max_capped = max (lo + steps) max_seq_of_count;
                                 min_value =
                                   (if lo = 0 \<and> \<not> fully_covered c then max_capped else lo)
                             in case better_randrange (Some min_value)
                                       (Some (min hi max_capped)) steps g of
                                  (Inl e, g') \<Rightarrow> (Inl e, c, g')
                                | (Inr None, g') \<Rightarrow> (Inl TypeError, c, g')
                                | (Inr (Some n), g') \<Rightarrow> (Inr n, c, g'))))))"

text \<open>
  The second \<^verbatim>\<open>match\<close>, lines 187-196, recomputes \<^verbatim>\<open>fully_covered\<close> of the node from its
  children; it is reached only when the first \<^verbatim>\<open>match\<close> has not raised.
\<close>

definition update_coverage :: "container \<Rightarrow> pyerror + container" where
  "update_coverage c =
     (case kind_of (asn1_type c) of
        K_SEQUENCE_OF \<Rightarrow>
          (case nested c of
             NElem e \<Rightarrow> Inr (set_fully_covered (fully_covered e) c)
           | _ \<Rightarrow> Inl AttributeError)
      | K_CHOICE \<Rightarrow>
          (case nested c of
             NDict kvs \<Rightarrow> Inr (set_fully_covered (list_all (\<lambda>x. fully_covered (snd x)) kvs) c)
           | _ \<Rightarrow> Inl AttributeError)
      | K_SEQUENCE \<Rightarrow>
          (case nested c of
             NDict kvs \<Rightarrow> Inr (set_fully_covered (list_all (\<lambda>x. fully_covered (snd x)) kvs) c)
           | _ \<Rightarrow> Inl AttributeError)
      | _ \<Rightarrow> Inr (set_fully_covered True c))"

definition finish :: "val \<Rightarrow> container \<Rightarrow> rng \<Rightarrow> (pyerror + val) \<times> container \<times> rng" where
  "finish return_val c g =
     (case update_coverage c of
        Inl e \<Rightarrow> (Inl e, c, g)
      | Inr c' \<Rightarrow> (Inr return_val, c', g))"

definition leaf ::
  "container \<Rightarrow> (pyerror + val) \<times> rng \<Rightarrow> (pyerror + val) \<times> container \<times> rng" where
  "leaf c x = (case x of (Inl e, g') \<Rightarrow> (Inl e, c, g') | (Inr v, g') \<Rightarrow> finish v c g')"

text \<open>Measures of the tree, for the termination of the traversals.\<close>

fun csize :: "container \<Rightarrow> nat"
  and nsize :: "nested_t \<Rightarrow> nat"
  and fsize :: "(string \<times> container) list \<Rightarrow> nat" where
  "csize (Container i t opt n r s f) = Suc (nsize n)"
| "nsize NNone = 0"
| "nsize (NDict kvs) = fsize kvs"
| "nsize (NElem e) = csize e"
| "nsize (NLabels ls) = 0"
| "nsize (NProto p) = 0"
| "fsize [] = 0"
| "fsize (kv # rest) = Suc (csize (snd kv) + fsize rest)"

section \<open>Expansion (\<^verbatim>\<open>expand_once\<close>, lines 200-216)\<close>

text \<open>
  \<^verbatim>\<open>get_proto\<close> belongs to the schema layer: it is the parameter \<open>get_proto\<close>, which takes the
  handle of the schema object and the identifier history and returns the fresh subtree and
  the history as it leaves it. Only the four kinds of line 211 have a case; every other
  node is left as it is.
\<close>

fun expand_once ::
    "(nat \<Rightarrow> 'h \<Rightarrow> container \<times> 'h) \<Rightarrow> container \<Rightarrow> 'h \<Rightarrow> (pyerror + unit) \<times> container \<times> 'h"
  and expand_fields ::
    "(nat \<Rightarrow> 'h \<Rightarrow> container \<times> 'h) \<Rightarrow> (string \<times> container) list \<Rightarrow> 'h
      \<Rightarrow> (pyerror + unit) \<times> (string \<times> container) list \<times> 'h" where
  "expand_once get_proto (Container i t opt n r s f) ident_history =
     (if kind_of t = K_CHOICE \<or> kind_of t = K_SEQUENCE then
        (case n of
           NDict kvs \<Rightarrow>
             (case expand_fields get_proto kvs ident_history of
                (x, kvs', h') \<Rightarrow> (x, Container i t opt (NDict kvs') r s f, h'))
         | _ \<Rightarrow> (Inl AttributeError, Container i t opt n r s f, ident_history))
      else (Inr (), Container i t opt n r s f, ident_history))"
| "expand_fields get_proto [] ident_history = (Inr (), [], ident_history)"
| "expand_fields get_proto ((key, value) # rest) ident_history =
     (if asn1_type value = ''EXPANDABLE'' \<and> nested value \<noteq> NNone then
        (case nested value of
           NProto p \<Rightarrow>
             (case get_proto p ident_history of
                (proto, h1) \<Rightarrow>
                  (case expand_fields get_proto rest h1 of
                     (x, rest', h2) \<Rightarrow> (x, (key, proto) # rest', h2)))
         | _ \<Rightarrow> (Inl AttributeError, (key, value) # rest, ident_history))
      else
        (case expand_once get_proto value ident_history of
           (Inl e, value', h1) \<Rightarrow> (Inl e, (key, value') # rest, h1)
         | (Inr u, value', h1) \<Rightarrow>
             (case expand_fields get_proto rest h1 of
                (x, rest', h2) \<Rightarrow> (x, (key, value') # rest', h2))))"

section \<open>Pruning (\<^verbatim>\<open>remove_expandable\<close>, lines 244-291)\<close>

text \<open>\<^verbatim>\<open>del self.nested[key]\<close> for every key of \<^verbatim>\<open>keys_to_remove\<close> (lines 288-289).\<close>

fun del_keys ::
  "string list \<Rightarrow> (string \<times> container) list \<Rightarrow> pyerror + (string \<times> container) list" where
  "del_keys [] d = Inr d"
| "del_keys (key # keys) d =
     (if key \<in> fst ` set d then del_keys keys (filter (\<lambda>x. fst x \<noteq> key) d)
      else Inl KeyError)"

text \<open>
  The result is the returned boolean or the exception, and the container as the call leaves
  it. \<open>remove_choice\<close> is the loop of lines 264-267 and \<open>remove_sequence\<close> the loop of lines
  269-280, with \<^verbatim>\<open>result\<close> and \<^verbatim>\<open>keys_to_remove\<close> as accumulators.
\<close>

fun remove_expandable :: "container \<Rightarrow> (pyerror + bool) \<times> container"
  and remove_choice ::
    "(string \<times> container) list \<Rightarrow> string list
      \<Rightarrow> (pyerror + string list) \<times> (string \<times> container) list"
  and remove_sequence ::
    "(string \<times> container) list \<Rightarrow> bool \<Rightarrow> string list
      \<Rightarrow> (pyerror + bool \<times> string list) \<times> (string \<times> container) list" where
  "remove_expandable (Container i t opt n r s f) =
     (case kind_of t of
        K_EXPANDABLE \<Rightarrow> (Inr False, Container i t opt n r s f)
      | K_CHOICE \<Rightarrow>
          (case n of
             NDict kvs \<Rightarrow>
               (case remove_choice kvs [] of
                  (Inl e, kvs') \<Rightarrow> (Inl e, Container i t opt (NDict kvs') r s f)
                | (Inr keys_to_remove, kvs') \<Rightarrow>
                    (case del_keys keys_to_remove kvs' of
                       Inl e \<Rightarrow> (Inl e, Container i t opt (NDict kvs') r s f)
                     | Inr kvs'' \<Rightarrow> (Inr True, Container i t opt (NDict kvs'') r s f)))
           | _ \<Rightarrow> (Inl AttributeError, Container i t opt n r s f))
      | K_SEQUENCE \<Rightarrow>
          (case n of
             NDict kvs \<Rightarrow>
               (case remove_sequence kvs True [] of
                  (Inl e, kvs') \<Rightarrow> (Inl e, Container i t opt (NDict kvs') r s f)
                | (Inr (result, keys_to_remove), kvs') \<Rightarrow>
                    (case del_keys keys_to_remove kvs' of
                       Inl e \<Rightarrow> (Inl e, Container i t opt (NDict kvs') r s f)
                     | Inr kvs'' \<Rightarrow> (Inr result, Container i t opt (NDict kvs'') r s f)))
           | _ \<Rightarrow> (Inl AttributeError, Container i t opt n r s f))
      | K_SEQUENCE_OF \<Rightarrow>
          (case n of
             NNone \<Rightarrow> (Inr False, Container i t opt n r s f)
           | NElem elem \<Rightarrow>
               (case remove_expandable elem of
                  (x, elem') \<Rightarrow> (x, Container i t opt (NElem elem') r s f))
           | _ \<Rightarrow> (Inl AttributeError, Container i t opt n r s f))
      | _ \<Rightarrow> (Inr True, Container i t opt n r s f))"
| "remove_choice [] keys_to_remove = (Inr keys_to_remove, [])"
| "remove_choice ((key, value) # rest) keys_to_remove =
     (case remove_expandable value of
        (Inl e, value') \<Rightarrow> (Inl e, (key, value') # rest)
      | (Inr is_removed, value') \<Rightarrow>
          (case remove_choice rest
                  (if \<not> is_removed then keys_to_remove @ [key] else keys_to_remove) of
             (x, rest') \<Rightarrow> (x, (key, value') # rest')))"
| "remove_sequence [] result keys_to_remove = (Inr (result, keys_to_remove), [])"
| "remove_sequence ((key, value) # rest) result keys_to_remove =
     (case remove_expandable value of
        (Inl e, value') \<Rightarrow> (Inl e, (key, value') # rest)
      | (Inr is_removed, value') \<Rightarrow>
          (case (if is_removed then remove_sequence rest result keys_to_remove
                 else if optional value' then remove_sequence rest result (keys_to_remove @ [key])
                 else remove_sequence rest False keys_to_remove) of
             (x, rest') \<Rightarrow> (x, (key, value') # rest')))"

text \<open>A tree without EXPANDABLE node; a tree whose constructed nodes have their children.\<close>

fun expandable_free :: "container \<Rightarrow> bool"
  and expandable_free_fields :: "(string \<times> container) list \<Rightarrow> bool" where
  "expandable_free (Container i t opt n r s f) =
     (t \<noteq> ''EXPANDABLE'' \<and>
      (case n of
         NDict kvs \<Rightarrow> expandable_free_fields kvs
       | NElem elem \<Rightarrow> expandable_free elem
       | _ \<Rightarrow> True))"
| "expandable_free_fields [] = True"
| "expandable_free_fields (kv # rest) = (expandable_free (snd kv) \<and> expandable_free_fields rest)"

fun has_children :: "container \<Rightarrow> bool"
  and has_children_fields :: "(string \<times> container) list \<Rightarrow> bool" where
  "has_children (Container i t opt n r s f) =
     (case kind_of t of
        K_CHOICE \<Rightarrow> (case n of NDict kvs \<Rightarrow> has_children_fields kvs | _ \<Rightarrow> False)
      | K_SEQUENCE \<Rightarrow> (case n of NDict kvs \<Rightarrow> has_children_fields kvs | _ \<Rightarrow> False)
      | K_SEQUENCE_OF \<Rightarrow> (case n of NElem elem \<Rightarrow> has_children elem | _ \<Rightarrow> False)
      | _ \<Rightarrow> True)"
| "has_children_fields [] = True"
| "has_children_fields (kv # rest) = (has_children (snd kv) \<and> has_children_fields rest)"

section \<open>Example trees\<close>

text \<open>Concrete trees on which the theorems below are evaluated.\<close>

definition int_node :: "int option list option \<Rightarrow> container" where
  "int_node r = Container ''n'' ''INTEGER'' False NNone r 1 False"

definition bool_node :: container where
  "bool_node = Container ''x'' ''BOOLEAN'' False NNone None 1 False"

text \<open>A SEQUENCE OF BOOLEAN with the constraint \<open>(0, 5, 1)\<close>, not covered.\<close>

definition bounded_list :: container where
  "bounded_list =
     Container ''xs'' ''SEQUENCE OF'' False (NElem bool_node)
       (Some [Some 0, Some 5, Some 1]) 1 False"

text \<open>A SEQUENCE OF BOOLEAN with the open-ended constraint \<open>(0, None, None)\<close>, not covered.\<close>

definition open_list :: container where
  "open_list =
     Container ''xs'' ''SEQUENCE OF'' False (NElem bool_node)
       (Some [Some 0, None, None]) 1 False"

text \<open>
  The recursive type \<^verbatim>\<open>Tree ::= SEQUENCE { children SEQUENCE OF Tree }\<close>: the element of the
  SEQUENCE OF is an EXPANDABLE node with the schema object \<open>p\<close>.
\<close>

definition recursive_list :: "nat \<Rightarrow> container" where
  "recursive_list p =
     Container ''Tree'' ''SEQUENCE'' False
       (NDict [(''children'',
         Container ''children'' ''SEQUENCE OF'' False
           (NElem (Container ''item'' ''EXPANDABLE'' False (NProto p) None 1 False))
           None 1 False)]) None 1 False"

text \<open>
  A SEQUENCE OF without element (the case of line 282), alone and as the optional field of a
  SEQUENCE; and a tree with no EXPANDABLE node in which every constructed node has its
  children.
\<close>

definition childless_list :: container where
  "childless_list = Container ''xs'' ''SEQUENCE OF'' True NNone None 1 False"

definition holder :: container where
  "holder = Container ''S'' ''SEQUENCE'' False (NDict [(''xs'', childless_list)]) None 1 False"

definition sample_tree :: container where
  "sample_tree =
     Container ''S'' ''SEQUENCE'' False
       (NDict [(''n'', int_node None), (''xs'', bounded_list),
               (''c'', Container ''C'' ''CHOICE'' True (NDict [(''b'', bool_node)]) None 1 False)])
       None 1 False"

text \<open>
  A SEQUENCE whose one field is a CHOICE, and a SEQUENCE with a mandatory INTEGER field and an
  optional NULL field.
\<close>

definition choice_field :: container where
  "choice_field =
     Container ''S'' ''SEQUENCE'' False
       (NDict [(''a'', Container ''a'' ''CHOICE'' False (NDict [(''x'', bool_node)]) None 1 False)])
       None 1 False"

definition two_fields :: container where
  "two_fields =
     Container ''S'' ''SEQUENCE'' False
       (NDict [(''n'', int_node None),
               (''b'', Container ''b'' ''NULL'' True NNone None 1 False)])
       None 1 False"

text \<open>
  The CHOICE \<open>{A: BOOLEAN, B: NULL, C: INTEGER (0, 1)}\<close>; the parameters are the
  \<^verbatim>\<open>fully_covered\<close> flags of the CHOICE and of its three children.
\<close>

definition scalar_fields :: "bool \<Rightarrow> bool \<Rightarrow> bool \<Rightarrow> (string \<times> container) list" where
  "scalar_fields a b c =
     [(''A'', Container ''A'' ''BOOLEAN'' False NNone None 1 a),
      (''B'', Container ''B'' ''NULL'' False NNone None 1 b),
      (''C'', Container ''C'' ''INTEGER'' False NNone (Some [Some 0, Some 1]) 1 c)]"

definition three_scalars :: "bool \<Rightarrow> bool \<Rightarrow> bool \<Rightarrow> bool \<Rightarrow> container" where
  "three_scalars p a b c =
     Container ''T'' ''CHOICE'' False (NDict (scalar_fields a b c)) None 1 p"

text \<open>
  \<^verbatim>\<open>fuzz\<close>, lines 59-198. The call returns the value or the exception, the container as the
  call leaves it (also when it raises: the mutations done so far stay), and the rest of the
  random stream. \<open>fuzz_fields\<close> is the loop over the fields of a SEQUENCE (lines 128-138),
  \<open>fuzz_elements\<close> the loop over the elements of a SEQUENCE OF (lines 180-181), which calls
  \<^verbatim>\<open>fuzz\<close> on the one element container again and again. The default case of the first
  \<^verbatim>\<open>match\<close> only prints the type.
\<close>

function fuzz ::
    "string set option \<Rightarrow> string set option \<Rightarrow> bool \<Rightarrow> int \<Rightarrow> container \<Rightarrow> rng
      \<Rightarrow> (pyerror + val) \<times> container \<times> rng"
  and fuzz_fields ::
    "string set option \<Rightarrow> string set option \<Rightarrow> bool \<Rightarrow> int \<Rightarrow> bool
      \<Rightarrow> (string \<times> container) list \<Rightarrow> rng \<Rightarrow> (string \<times> val) list
      \<Rightarrow> (pyerror + (string \<times> val) list) \<times> (string \<times> container) list \<times> rng"
  and fuzz_elements ::
    "string set option \<Rightarrow> string set option \<Rightarrow> bool \<Rightarrow> int \<Rightarrow> nat \<Rightarrow> container \<Rightarrow> rng
      \<Rightarrow> val list \<Rightarrow> (pyerror + val list) \<times> container \<times> rng" where
  "fuzz allowlist blocklist coverage_aware max_seq_of_count c g =
     (case kind_of (asn1_type c) of
        K_INTEGER \<Rightarrow> leaf c (fuzz_INTEGER c g)
      | K_ENUMERATED \<Rightarrow> leaf c (fuzz_ENUMERATED c g)
      | K_BOOLEAN \<Rightarrow> leaf c (fuzz_BOOLEAN g)
      | K_OCTET_STRING \<Rightarrow> leaf c (fuzz_OCTET_STRING c g)
      | K_BIT_STRING \<Rightarrow> leaf c (fuzz_BIT_STRING c g)
      | K_CHARSTRING \<Rightarrow> leaf c (fuzz_CHARSTRING c g)
      | K_NumericString \<Rightarrow> leaf c (fuzz_NumericString c g)
      | K_NULL \<Rightarrow> finish (VInt 0) c g
      | K_EXPANDABLE \<Rightarrow> (Inl ValueError, c, g)
      | K_SEQUENCE \<Rightarrow>
          (case nested c of
             NDict kvs \<Rightarrow>
               (case fuzz_fields allowlist blocklist coverage_aware max_seq_of_count
                       (fully_covered c) kvs g [] of
                  (Inl e, kvs', g') \<Rightarrow> (Inl e, set_nested (NDict kvs') c, g')
                | (Inr retNested, kvs', g') \<Rightarrow>
                    finish (VDict retNested) (set_nested (NDict kvs') c) g')
           | _ \<Rightarrow> (Inl AttributeError, c, g))
      | K_CHOICE \<Rightarrow>
          (case nested c of
             NDict kvs \<Rightarrow>
               (case allowlist of
                  Some A \<Rightarrow>
                    (case find (\<lambda>x. unique_ident (snd x) \<in> A) kvs of
                       None \<Rightarrow> finish VNone c g
                     | Some (key, value) \<Rightarrow>
                         (case fuzz allowlist blocklist coverage_aware max_seq_of_count value g of
                            (Inl e, value', g') \<Rightarrow>
                              (Inl e, set_nested (NDict (put_first (\<lambda>x. unique_ident (snd x) \<in> A) value' kvs)) c, g')
                          | (Inr v, value', g') \<Rightarrow>
                              finish (VTuple [VStr key, v])
                                (set_nested (NDict (put_first (\<lambda>x. unique_ident (snd x) \<in> A) value' kvs)) c) g'))
                | None \<Rightarrow>
                    (case select_key coverage_aware kvs g of
                       (Inl e, g1) \<Rightarrow> (Inl e, c, g1)
                     | (Inr selectedKey, g1) \<Rightarrow>
                         (case map_of kvs selectedKey of
                            None \<Rightarrow> (Inl KeyError, c, g1)
                          | Some value \<Rightarrow>
                              (case fuzz allowlist blocklist coverage_aware max_seq_of_count
                                      value g1 of
                                 (Inl e, value', g') \<Rightarrow>
                                   (Inl e, set_nested (NDict (put_child selectedKey value' kvs)) c,
                                    g')
                               | (Inr v, value', g') \<Rightarrow>
                                   finish (VTuple [VStr selectedKey, v])
                                     (set_nested (NDict (put_child selectedKey value' kvs)) c)
                                     g'))))
           | _ \<Rightarrow> (Inl AttributeError, c, g))
      | K_SEQUENCE_OF \<Rightarrow>
          (case seq_of_count max_seq_of_count c g of
             (Inl e, c1, g1) \<Rightarrow> (Inl e, c1, g1)
           | (Inr numElementsSequence, c1, g1) \<Rightarrow>
               (case nested c of
                  NElem elem \<Rightarrow>
                    (case fuzz_elements allowlist blocklist coverage_aware max_seq_of_count
                            (nat numElementsSequence) elem g1 [] of
                       (Inl e, elem', g') \<Rightarrow> (Inl e, set_nested (NElem elem') c1, g')
                     | (Inr ret, elem', g') \<Rightarrow>
                         finish (VList ret) (set_nested (NElem elem') c1) g')
                | _ \<Rightarrow> (Inl AttributeError, c1, g1)))
      | K_OTHER \<Rightarrow> finish VNone c g)"
| "fuzz_fields allowlist blocklist coverage_aware max_seq_of_count self_covered [] g retNested =
     (Inr retNested, [], g)"
| "fuzz_fields allowlist blocklist coverage_aware max_seq_of_count self_covered (kv # rest) g
      retNested =
     (case field_skipped allowlist coverage_aware self_covered (snd kv) g of
        (skip, g1) \<Rightarrow>
          (if skip then
             (case fuzz_fields allowlist blocklist coverage_aware max_seq_of_count self_covered
                     rest g1 retNested of
                (r, rest', g2) \<Rightarrow> (r, kv # rest', g2))
           else
             (case fuzz allowlist blocklist coverage_aware max_seq_of_count (snd kv) g1 of
                (Inl e, value', g2) \<Rightarrow> (Inl e, (fst kv, value') # rest, g2)
              | (Inr fuzzed_value, value', g2) \<Rightarrow>
                  (case fuzz_fields allowlist blocklist coverage_aware max_seq_of_count
                          self_covered rest g2
                          (if fuzzed_value \<noteq> VNone then dict_set retNested (fst kv) fuzzed_value
                           else retNested) of
                     (r, rest', g3) \<Rightarrow> (r, (fst kv, value') # rest', g3)))))"
| "fuzz_elements allowlist blocklist coverage_aware max_seq_of_count 0 elem g ret =
     (Inr ret, elem, g)"
| "fuzz_elements allowlist blocklist coverage_aware max_seq_of_count (Suc n) elem g ret =
     (case fuzz allowlist blocklist coverage_aware max_seq_of_count elem g of
        (Inl e, elem', g') \<Rightarrow> (Inl e, elem', g')
      | (Inr v, elem', g') \<Rightarrow>
          fuzz_elements allowlist blocklist coverage_aware max_seq_of_count n elem' g'
            (ret @ [v]))"
  by pat_completeness auto


lemma csize_set_nested [simp]: "csize (set_nested n c) = Suc (nsize n)"
  by (cases c) simp

lemma csize_set_crange [simp]: "csize (set_crange r c) = csize c"
  by (cases c) simp

lemma csize_set_fully_covered [simp]: "csize (set_fully_covered b c) = csize c"
  by (cases c) simp

lemma csize_nested: "csize c = Suc (nsize (nested c))"
  by (cases c) simp

lemma update_coverage_csize: "update_coverage c = Inr c' \<Longrightarrow> csize c' = csize c"
  by (auto simp: update_coverage_def split: kind.splits nested_t.splits)

lemma finish_csize [simp]: "csize (fst (snd (finish v c g))) = csize c"
  by (auto simp: finish_def update_coverage_csize split: sum.splits)

lemma leaf_csize [simp]: "csize (fst (snd (leaf c x))) = csize c"
  by (auto simp: leaf_def split: prod.splits sum.splits)

lemma open_ended_count_state: "fst (snd (open_ended_count m lo c g)) = c"
  by (auto simp: open_ended_count_def Let_def split: option.splits prod.splits)

lemma seq_of_count_csize: "seq_of_count m c g = (r, c1, g1) \<Longrightarrow> csize c1 = csize c"
  by (auto simp: seq_of_count_def Let_def open_ended_count_def
      split: option.splits sum.splits prod.splits if_splits)

lemma fsize_put_first:
  "find P kvs = Some kv \<Longrightarrow> csize v = csize (snd kv) \<Longrightarrow> fsize (put_first P v kvs) = fsize kvs"
  by (induction kvs) (auto split: if_splits)

lemma map_of_find: "map_of kvs k = Some v \<Longrightarrow> find (\<lambda>x. fst x = k) kvs = Some (k, v)"
  by (induction kvs) (auto split: if_splits)

lemma fsize_put_child:
  "map_of kvs k = Some x \<Longrightarrow> csize v = csize x \<Longrightarrow> fsize (put_child k v kvs) = fsize kvs"
  unfolding put_child_def by (rule fsize_put_first [OF map_of_find]) simp_all

lemma find_csize: "find P kvs = Some kv \<Longrightarrow> csize (snd kv) < Suc (fsize kvs)"
  by (induction kvs) (auto split: if_splits)

lemma map_of_csize: "map_of kvs k = Some v \<Longrightarrow> csize v < Suc (fsize kvs)"
  using find_csize [OF map_of_find] by fastforce

lemma fuzz_csize_dom:
  "fuzz_fuzz_fields_fuzz_elements_dom (Inl (al, bl, cov, m, c, g)) \<Longrightarrow>
     csize (fst (snd (fuzz al bl cov m c g))) = csize c"
  "fuzz_fuzz_fields_fuzz_elements_dom (Inr (Inl (al, bl, cov, m, sc, kvs, g, ret))) \<Longrightarrow>
     fsize (fst (snd (fuzz_fields al bl cov m sc kvs g ret))) = fsize kvs"
  "fuzz_fuzz_fields_fuzz_elements_dom (Inr (Inr (al, bl, cov, m, n, el, g, vs))) \<Longrightarrow>
     csize (fst (snd (fuzz_elements al bl cov m n el g vs))) = csize el"
proof (induct rule: fuzz_fuzz_fields_fuzz_elements.pinduct)
  case (1 al bl cov m c g)
  note dom = "1.hyps"(1)
  note eq = fuzz.psimps [OF dom]
  show ?case
  proof (cases "kind_of (asn1_type c)")
    case K_SEQUENCE
    show ?thesis
    proof (cases "nested c")
      case (NDict kvs)
      from "1.hyps"(2) [OF K_SEQUENCE NDict] show ?thesis
        by (auto simp: eq K_SEQUENCE NDict csize_nested [of c] split: prod.splits sum.splits)
    qed (simp_all add: eq K_SEQUENCE)
  next
    case K_CHOICE
    show ?thesis
    proof (cases "nested c")
      case (NDict kvs)
      show ?thesis
      proof (cases al)
        case None
        note no_allowlist = None
        obtain r g1 where sel: "select_key cov kvs g = (r, g1)"
          by (cases "select_key cov kvs g")
        show ?thesis
        proof (cases r)
          case (Inl e)
          then show ?thesis
            by (subst eq) (simp add: K_CHOICE NDict no_allowlist sel)
        next
          case (Inr key)
          show ?thesis
          proof (cases "map_of kvs key")
            case None
            then show ?thesis
              by (subst eq) (simp add: K_CHOICE NDict no_allowlist sel Inr)
          next
            case (Some v)
            obtain r' v' g' where fz: "fuzz al bl cov m v g1 = (r', v', g')"
              by (cases "fuzz al bl cov m v g1")
            from "1.hyps"(3) [OF K_CHOICE NDict no_allowlist sel [symmetric] Inr Some] fz
            have "csize v' = csize v" by simp
            then have "fsize (put_child key v' kvs) = fsize kvs"
              by (rule fsize_put_child [OF Some])
            then show ?thesis
              using fz
              by (subst eq)
                (simp add: K_CHOICE NDict no_allowlist sel Inr Some csize_nested [of c]
                  split: sum.splits)
          qed
        qed
      next
        case (Some A)
        show ?thesis
        proof (cases "find (\<lambda>x. unique_ident (snd x) \<in> A) kvs")
          case None
          then show ?thesis
            by (subst eq) (simp add: K_CHOICE NDict Some)
        next
          case found: (Some kv)
          obtain key v where kv: "kv = (key, v)" by (cases kv)
          obtain r' v' g' where fz: "fuzz al bl cov m v g = (r', v', g')"
            by (cases "fuzz al bl cov m v g")
          from "1.hyps"(4) [OF K_CHOICE NDict Some found kv [symmetric]] fz
          have "csize v' = csize v" by simp
          then have "fsize (put_first (\<lambda>x. unique_ident (snd x) \<in> A) v' kvs) = fsize kvs"
            using fsize_put_first [OF found] kv by simp
          then show ?thesis
            using fz
            by (subst eq)
              (simp add: K_CHOICE NDict Some found kv csize_nested [of c] split: sum.splits)
        qed
      qed
    qed (simp_all add: eq K_CHOICE)
  next
    case K_SEQUENCE_OF
    obtain r c1 g1 where cnt: "seq_of_count m c g = (r, c1, g1)"
      by (cases "seq_of_count m c g")
    note c1 = seq_of_count_csize [OF cnt]
    show ?thesis
    proof (cases r)
      case (Inl e)
      then show ?thesis
        by (subst eq) (simp add: K_SEQUENCE_OF cnt c1)
    next
      case (Inr n)
      show ?thesis
      proof (cases "nested c")
        case (NElem el)
        obtain r' el' g' where fz:
          "fuzz_elements al bl cov m (nat n) el g1 [] = (r', el', g')"
          by (cases "fuzz_elements al bl cov m (nat n) el g1 []")
        from "1.hyps"(5) [OF K_SEQUENCE_OF _ Inr _ NElem, of "(c1, g1)" c1 g1] cnt fz
        have "csize el' = csize el" by simp
        then show ?thesis
          using fz
          by (subst eq)
            (simp add: K_SEQUENCE_OF cnt Inr NElem csize_nested [of c] split: sum.splits)
      qed (subst eq, simp add: K_SEQUENCE_OF cnt Inr c1)+
    qed
  qed (simp_all add: eq)
next
  case (2 al bl cov m sc g ret)
  then show ?case by (simp add: fuzz_fields.psimps)
next
  case (3 al bl cov m sc kv rest g ret)
  show ?case
    using 3 by (auto simp: fuzz_fields.psimps(2)[OF 3(1)] split: prod.splits sum.splits)
next
  case (4 al bl cov m el g vs)
  then show ?case by (simp add: fuzz_elements.psimps)
next
  case (5 al bl cov m n el g vs)
  show ?case
    using 5 by (auto simp: fuzz_elements.psimps(2)[OF 5(1)] split: prod.splits sum.splits)
qed

termination fuzz
proof (relation "measures [
    (\<lambda>x. case x of
        Inl (al, bl, cov, m, c, g) \<Rightarrow> csize c
      | Inr (Inl (al, bl, cov, m, sc, kvs, g, ret)) \<Rightarrow> fsize kvs
      | Inr (Inr (al, bl, cov, m, n, el, g, vs)) \<Rightarrow> csize el),
    (\<lambda>x. case x of
        Inl (al, bl, cov, m, c, g) \<Rightarrow> 0
      | Inr (Inl (al, bl, cov, m, sc, kvs, g, ret)) \<Rightarrow> 0
      | Inr (Inr (al, bl, cov, m, n, el, g, vs)) \<Rightarrow> Suc n)]", goal_cases)
  case 1
  show ?case by simp
next
  case (2 al bl cov m c g kvs)
  then show ?case by (simp add: csize_nested [of c])
next
  case (3 al bl cov m c g kvs x y key v)
  then show ?case by (simp add: csize_nested [of c] map_of_csize)
next
  case (4 al bl cov m c g kvs A kv k v)
  then show ?case using find_csize [of _ kvs kv] by (auto simp: csize_nested [of c])
next
  case (5 al bl cov m c g x y n c1 g1 el)
  then show ?case by (simp add: csize_nested [of c])
next
  case 6
  then show ?case by simp
next
  case 7
  then show ?case by simp
next
  case 8
  then show ?case by simp
next
  case 9
  then show ?case by simp
next
  case (10 al bl cov m n el g vs x y v el' g')
  from fuzz_csize_dom(1) [OF 10(4)] 10(1,3) show ?case
    by (cases "fuzz al bl cov m el g") auto
qed

declare fuzz.simps [simp del]

section \<open>Coverage over several calls\<close>

text \<open>
  \<open>cov_le c c'\<close>: the trees \<open>c\<close> and \<open>c'\<close> have the same nodes (identifiers, types, optional
  flags, field names, labels), and every node that is fully covered in \<open>c\<close> is fully covered
  in \<open>c'\<close>; constraints are not compared. \<open>coherent c\<close>: every fully covered SEQUENCE, CHOICE,
  OPEN_TYPE, ANY and SEQUENCE OF node of \<open>c\<close> has all its children fully covered, which is
  what the second \<^verbatim>\<open>match\<close> of \<^verbatim>\<open>fuzz\<close> establishes. \<open>uncovered c\<close>: no node is fully covered,
  as the constructor leaves it (line 29). \<open>fuzz_calls\<close> runs \<^verbatim>\<open>fuzz\<close> on the tree once for each
  entry of a list of arguments and random sources, whether the calls return or raise.
\<close>

fun cov_le :: "container \<Rightarrow> container \<Rightarrow> bool"
  and cov_le_nested :: "nested_t \<Rightarrow> nested_t \<Rightarrow> bool"
  and cov_le_fields :: "(string \<times> container) list \<Rightarrow> (string \<times> container) list \<Rightarrow> bool" where
  "cov_le (Container i t opt n r s f) (Container i' t' opt' n' r' s' f') =
     (i' = i \<and> t' = t \<and> opt' = opt \<and> (f \<longrightarrow> f') \<and> cov_le_nested n n')"
| "cov_le_nested (NDict kvs) (NDict kvs') = cov_le_fields kvs kvs'"
| "cov_le_nested (NElem e) (NElem e') = cov_le e e'"
| "cov_le_nested n n' = (n = n')"
| "cov_le_fields [] [] = True"
| "cov_le_fields (kv # rest) (kv' # rest') =
     (fst kv' = fst kv \<and> cov_le (snd kv) (snd kv') \<and> cov_le_fields rest rest')"
| "cov_le_fields kvs kvs' = False"

definition children_covered :: "string \<Rightarrow> nested_t \<Rightarrow> bool" where
  "children_covered t n =
     (case kind_of t of
        K_SEQUENCE_OF \<Rightarrow> (case n of NElem e \<Rightarrow> fully_covered e | _ \<Rightarrow> True)
      | K_CHOICE \<Rightarrow> (case n of NDict kvs \<Rightarrow> list_all (\<lambda>x. fully_covered (snd x)) kvs | _ \<Rightarrow> True)
      | K_SEQUENCE \<Rightarrow> (case n of NDict kvs \<Rightarrow> list_all (\<lambda>x. fully_covered (snd x)) kvs | _ \<Rightarrow> True)
      | _ \<Rightarrow> True)"

fun coherent :: "container \<Rightarrow> bool"
  and coherent_nested :: "nested_t \<Rightarrow> bool"
  and coherent_fields :: "(string \<times> container) list \<Rightarrow> bool" where
  "coherent (Container i t opt n r s f) = ((f \<longrightarrow> children_covered t n) \<and> coherent_nested n)"
| "coherent_nested (NDict kvs) = coherent_fields kvs"
| "coherent_nested (NElem e) = coherent e"
| "coherent_nested n = True"
| "coherent_fields [] = True"
| "coherent_fields (kv # rest) = (coherent (snd kv) \<and> coherent_fields rest)"

fun uncovered :: "container \<Rightarrow> bool"
  and uncovered_nested :: "nested_t \<Rightarrow> bool"
  and uncovered_fields :: "(string \<times> container) list \<Rightarrow> bool" where
  "uncovered (Container i t opt n r s f) = (\<not> f \<and> uncovered_nested n)"
| "uncovered_nested (NDict kvs) = uncovered_fields kvs"
| "uncovered_nested (NElem e) = uncovered e"
| "uncovered_nested n = True"
| "uncovered_fields [] = True"
| "uncovered_fields (kv # rest) = (uncovered (snd kv) \<and> uncovered_fields rest)"

type_synonym call = "string set option \<times> string set option \<times> bool \<times> int \<times> rng"

fun fuzz_calls :: "call list \<Rightarrow> container \<Rightarrow> container" where
  "fuzz_calls [] c = c"
| "fuzz_calls ((allowlist, blocklist, coverage_aware, max_seq_of_count, g) # calls) c =
     fuzz_calls calls (fst (snd (fuzz allowlist blocklist coverage_aware max_seq_of_count c g)))"

text \<open>
  \<open>renested c c'\<close>: \<open>c'\<close> is the node \<open>c\<close> with its children generated further and possibly
  its constraint overwritten, before the flag of the node is recomputed.
\<close>

definition renested :: "container \<Rightarrow> container \<Rightarrow> bool" where
  "renested c c' \<longleftrightarrow>
     unique_ident c' = unique_ident c \<and> asn1_type c' = asn1_type c \<and> optional c' = optional c \<and>
     fully_covered c' = fully_covered c \<and> cov_le_nested (nested c) (nested c') \<and>
     coherent_nested (nested c')"

section \<open>Claims\<close>

subsection \<open>INTEGER values\<close>

lemma randrange_bounds:
  assumes "lo < hi"
  shows "\<exists>v g'. randrange lo hi 1 g = (Inr v, g') \<and> lo \<le> v \<and> v < hi"
proof -
  have "shd g mod nat (hi - lo) < nat (hi - lo)"
    using assms by simp
  then have "lo + int (shd g mod nat (hi - lo)) < hi"
    by linarith
  then show ?thesis
    using assms by (simp add: randrange_def randbelow_def)
qed

lemma fuzz_INTEGER_value:
  "kind_of (asn1_type c) = K_INTEGER \<Longrightarrow>
     fst (fuzz al bl cov m c g) = fst (fuzz_INTEGER c g)"
  by (simp add: fuzz.simps leaf_def finish_def update_coverage_def
      split: prod.splits sum.splits)

text \<open>
  C1, as the code has it. For every INTEGER node \<^verbatim>\<open>fuzz\<close> returns an integer \<open>v\<close>: with no
  constraint, \<open>0 \<le> v < 128\<close>; with the constraint \<open>(min, None)\<close> and \<open>min < 128\<close>,
  \<open>min \<le> v < 128\<close>; with \<open>(min, max)\<close> and \<open>min = max\<close>, \<open>v = min\<close>; with \<open>min < max\<close>,
  \<open>min \<le> v < max\<close>. The tuple may have further entries (a step). The specification
  states the second case for every \<open>min\<close>; for \<open>min = 128\<close> the range \<open>[128, 128)\<close> is
  empty and line 80 raises, as evaluated after the theorem.
\<close>

theorem fuzz_INTEGER_range:
  assumes "asn1_type c = ''INTEGER''"
  shows
    "(crange c = None \<longrightarrow>
        (\<exists>v. fst (fuzz allowlist blocklist coverage_aware max_seq_of_count c g) = Inr (VInt v)
           \<and> 0 \<le> v \<and> v < 128)) \<and>
     (\<forall>lo rest. crange c = Some (Some lo # None # rest) \<and> lo < 128 \<longrightarrow>
        (\<exists>v. fst (fuzz allowlist blocklist coverage_aware max_seq_of_count c g) = Inr (VInt v)
           \<and> lo \<le> v \<and> v < 128)) \<and>
     (\<forall>lo hi rest. crange c = Some (Some lo # Some hi # rest) \<and> lo = hi \<longrightarrow>
        fst (fuzz allowlist blocklist coverage_aware max_seq_of_count c g) = Inr (VInt lo)) \<and>
     (\<forall>lo hi rest. crange c = Some (Some lo # Some hi # rest) \<and> lo < hi \<longrightarrow>
        (\<exists>v. fst (fuzz allowlist blocklist coverage_aware max_seq_of_count c g) = Inr (VInt v)
           \<and> lo \<le> v \<and> v < hi))"
proof -
  have k: "kind_of (asn1_type c) = K_INTEGER"
    using assms by (simp add: kind_of_def)
  note v = fuzz_INTEGER_value [OF k]
  have a: "\<exists>v. fst (fuzz_INTEGER c g) = Inr (VInt v) \<and> 0 \<le> v \<and> v < 128"
    if "crange c = None"
    using randrange_bounds [of 0 128 g] that
    by (auto simp: fuzz_INTEGER_def returning_def and_then_def)
  have b: "\<exists>v. fst (fuzz_INTEGER c g) = Inr (VInt v) \<and> lo \<le> v \<and> v < 128"
    if "crange c = Some (Some lo # None # rest)" "lo < 128" for lo rest
    using randrange_bounds [of lo 128 g] that
    by (auto simp: fuzz_INTEGER_def returning_def and_then_def idx_def py_randrange_def)
  have c: "fst (fuzz_INTEGER c g) = Inr (VInt lo)"
    if "crange c = Some (Some lo # Some lo # rest)" for lo rest
    using that by (simp add: fuzz_INTEGER_def idx_def opt_val_def)
  have d: "\<exists>v. fst (fuzz_INTEGER c g) = Inr (VInt v) \<and> lo \<le> v \<and> v < hi"
    if "crange c = Some (Some lo # Some hi # rest)" "lo < hi" for lo hi rest
    using randrange_bounds [of lo hi g] that
    by (auto simp: fuzz_INTEGER_def returning_def and_then_def idx_def py_randrange_def)
  show ?thesis
    unfolding v using a b c d by blast
qed

theorem fuzz_INTEGER_range_witness:
  "(\<exists>v. fst (fuzz None None False 1 (int_node None) (sconst 0)) = Inr (VInt v)
      \<and> 0 \<le> v \<and> v < 128) \<and>
   (\<exists>v. fst (fuzz None None False 1 (int_node (Some [Some 5, None])) (sconst 0)) = Inr (VInt v)
      \<and> 5 \<le> v \<and> v < 128) \<and>
   fst (fuzz None None False 1 (int_node (Some [Some 7, Some 7])) (sconst 0)) = Inr (VInt 7) \<and>
   (\<exists>v. fst (fuzz None None False 1 (int_node (Some [Some 3, Some 9])) (sconst 0)) = Inr (VInt v)
      \<and> 3 \<le> v \<and> v < 9)"
  using
    fuzz_INTEGER_range [of "int_node None" None None False 1 "sconst 0"]
    fuzz_INTEGER_range [of "int_node (Some [Some 5, None])" None None False 1 "sconst 0"]
    fuzz_INTEGER_range [of "int_node (Some [Some 7, Some 7])" None None False 1 "sconst 0"]
    fuzz_INTEGER_range [of "int_node (Some [Some 3, Some 9])" None None False 1 "sconst 0"]
  by (simp add: int_node_def)

theorem fuzz_INTEGER_open_raises:
  "fst (fuzz None None False 1 (int_node (Some [Some 128, None])) (sconst 0)) = Inl ValueError"
  by (simp add: fuzz.simps kind_of_def int_node_def fuzz_INTEGER_def idx_def leaf_def
      py_randrange_def randrange_def returning_def and_then_def)

subsection \<open>Expansion under a SEQUENCE OF\<close>

text \<open>An EXPANDABLE node that is a field of a SEQUENCE is replaced by what its factory builds.\<close>

lemma expand_once_replaces_field:
  "expand_once get_proto
     (Container i ''SEQUENCE'' opt
        (NDict [(key, Container i' ''EXPANDABLE'' opt' (NProto p) r' s' f')]) r s f) h =
   (Inr (), Container i ''SEQUENCE'' opt (NDict [(key, fst (get_proto p h))]) r s f,
    snd (get_proto p h))"
  by (simp add: kind_of_def split: prod.splits)

text \<open>
  C2. One pass of \<^verbatim>\<open>expand_once\<close> over the recursive list type leaves the tree as it was: the
  EXPANDABLE element of the SEQUENCE OF is not replaced, \<^verbatim>\<open>get_proto\<close> is not called and the
  history is not touched, whatever the factory. \<^verbatim>\<open>expand_once\<close> has no case for SEQUENCE OF
  (line 211), while \<^verbatim>\<open>fuzz\<close>, \<^verbatim>\<open>coverage\<close>, \<^verbatim>\<open>remove_expandable\<close> and \<^verbatim>\<open>feature_ide\<close> all
  descend into its element.
\<close>

theorem expand_once_skips_sequence_of:
  "expand_once get_proto (recursive_list p) ident_history =
     (Inr (), recursive_list p, ident_history)"
  by (simp add: recursive_list_def kind_of_def)

subsection \<open>Bounded SEQUENCE OF, not covered\<close>

text \<open>
  C3. On an uncovered SEQUENCE OF with the constraint \<open>(0, 5, 1)\<close>, coverage aware and with
  \<^verbatim>\<open>max_seq_of_count = 6\<close>, \<^verbatim>\<open>fuzz\<close> returns no list: the forced minimum is
  \<open>max (0 + 1) 6 = 6\<close>, the upper bound \<open>min 5 6 = 5\<close>, and \<^verbatim>\<open>random.randrange(6, 5, 1)\<close> raises
  \<^verbatim>\<open>ValueError\<close> (lines 174-178).
\<close>

theorem fuzz_bounded_list_raises:
  "fst (fuzz None None True 6 bounded_list g) = Inl ValueError"
  by (simp add: fuzz.simps kind_of_def bounded_list_def seq_of_count_def idx_def
      better_randrange_def py_randrange_def randrange_def)

subsection \<open>What generation mutates\<close>

text \<open>
  C4. One call of \<^verbatim>\<open>fuzz\<close> on an uncovered SEQUENCE OF with the open-ended constraint
  \<open>(0, None, None)\<close> changes the constraint of the node: it is \<open>(1, None, None)\<close> afterwards
  (line 167), whatever the random source.
\<close>

theorem fuzz_overwrites_range:
  "crange open_list = Some [Some 0, None, None] \<and>
   crange (fst (snd (fuzz None None False 1 open_list g))) = Some [Some 1, None, None]"
  by (simp add: fuzz.simps fuzz_elements.simps kind_of_def open_list_def bool_node_def
      seq_of_count_def idx_def open_ended_count_def fuzz_BOOLEAN_def choice_def randbelow_def
      returning_def and_then_def leaf_def finish_def update_coverage_def
      split: prod.splits sum.splits)

subsection \<open>SEQUENCE with an allowlist\<close>

lemma fuzz_fields_all_skipped:
  "\<forall>kv \<in> set kvs. unique_ident (snd kv) \<notin> A \<Longrightarrow>
     fuzz_fields (Some A) bl cov m sc kvs g ret = (Inr ret, kvs, g)"
  by (induction kvs) (simp_all add: field_skipped_def)

lemma fuzz_fields_one_allowed:
  assumes "\<forall>kv \<in> set (pre @ post). unique_ident (snd kv) \<notin> A"
    and "unique_ident value \<in> A"
  shows "fst (fuzz_fields (Some A) bl cov m sc (pre @ (key, value) # post) g ret) =
     (case fst (fuzz (Some A) bl cov m value g) of
        Inl e \<Rightarrow> Inl e
      | Inr v \<Rightarrow> Inr (if v \<noteq> VNone then dict_set ret key v else ret))"
  using assms
proof (induction pre)
  case Nil
  then show ?case
    by (simp add: field_skipped_def fuzz_fields_all_skipped split: prod.splits sum.splits)
next
  case (Cons kv pre)
  then show ?case
    by (cases "fuzz_fields (Some A) bl cov m sc (pre @ (key, value) # post) g ret")
      (simp add: field_skipped_def)
qed

text \<open>
  C5, as the code has it. Let a SEQUENCE have exactly one field whose identifier is \<open>ident\<close>,
  and let the allowlist be \<open>{ident}\<close>. The other fields are left out without a draw, and the
  field is generated with the same allowlist: when that raises, so does the call; when it
  returns \<^verbatim>\<open>None\<close>, the mapping is empty (line 137); otherwise the mapping holds exactly that
  field. This is so for every \<^verbatim>\<open>optional\<close> flag and every \<^verbatim>\<open>coverage_aware\<close>. The
  specification states that the mapping always holds the field; it is empty for a field that
  is a CHOICE none of whose alternatives is in the allowlist, as evaluated after the theorem.
\<close>

theorem fuzz_SEQUENCE_allowlist:
  assumes "asn1_type c = ''SEQUENCE''"
    and "nested c = NDict (pre @ (key, value) # post)"
    and "unique_ident value = ident"
    and "\<forall>kv \<in> set (pre @ post). unique_ident (snd kv) \<noteq> ident"
  shows "fst (fuzz (Some {ident}) blocklist coverage_aware max_seq_of_count c g) =
     (case fst (fuzz (Some {ident}) blocklist coverage_aware max_seq_of_count value g) of
        Inl e \<Rightarrow> Inl e
      | Inr v \<Rightarrow> Inr (VDict (if v = VNone then [] else [(key, v)])))"
proof -
  have k: "kind_of (asn1_type c) = K_SEQUENCE"
    using assms(1) by (simp add: kind_of_def)
  have "fst (fuzz_fields (Some {ident}) blocklist coverage_aware max_seq_of_count
          (fully_covered c) (pre @ (key, value) # post) g []) =
     (case fst (fuzz (Some {ident}) blocklist coverage_aware max_seq_of_count value g) of
        Inl e \<Rightarrow> Inl e
      | Inr v \<Rightarrow> Inr (if v \<noteq> VNone then dict_set [] key v else []))"
    using assms(3,4) by (intro fuzz_fields_one_allowed) auto
  moreover obtain r kvs' g' where
    "fuzz_fields (Some {ident}) blocklist coverage_aware max_seq_of_count
       (fully_covered c) (pre @ (key, value) # post) g [] = (r, kvs', g')"
    by (cases "fuzz_fields (Some {ident}) blocklist coverage_aware max_seq_of_count
          (fully_covered c) (pre @ (key, value) # post) g []")
  moreover have "kind_of (asn1_type (set_nested (NDict kvs') c)) = K_SEQUENCE"
    "nested (set_nested (NDict kvs') c) = NDict kvs'"
    using k by (cases c; simp)+
  ultimately show ?thesis
    by (subst fuzz.simps)
      (auto simp: k assms(2) finish_def update_coverage_def split: sum.splits)
qed

theorem fuzz_SEQUENCE_allowlist_witness:
  "fst (fuzz (Some {''b''}) None True 1 two_fields (sconst 0)) = Inr (VDict [(''b'', VInt 0)])"
  using fuzz_SEQUENCE_allowlist [of two_fields "[(''n'', int_node None)]" "''b''"
      "Container ''b'' ''NULL'' True NNone None 1 False" "[]" "''b''" None True 1 "sconst 0"]
  by (simp add: two_fields_def int_node_def fuzz.simps kind_of_def finish_def
      update_coverage_def)

theorem fuzz_SEQUENCE_allowlist_empty:
  "fst (fuzz (Some {''a''}) None False 1 choice_field (sconst 0)) = Inr (VDict [])"
  by (simp add: choice_field_def bool_node_def fuzz.simps kind_of_def
      field_skipped_def finish_def update_coverage_def)

subsection \<open>Coverage is monotone\<close>

lemma cov_le_iff:
  "cov_le c c' \<longleftrightarrow>
     unique_ident c' = unique_ident c \<and> asn1_type c' = asn1_type c \<and> optional c' = optional c \<and>
     (fully_covered c \<longrightarrow> fully_covered c') \<and> cov_le_nested (nested c) (nested c')"
  by (cases c; cases c') simp

lemma coherent_iff:
  "coherent c \<longleftrightarrow>
     (fully_covered c \<longrightarrow> children_covered (asn1_type c) (nested c)) \<and> coherent_nested (nested c)"
  by (cases c) simp

lemma cov_le_refl:
  "cov_le c c" "cov_le_nested n n" "cov_le_fields kvs kvs"
  by (induction c and n and kvs rule: csize_nsize_fsize.induct) simp_all

lemma uncovered_coherent:
  "uncovered c \<Longrightarrow> coherent c" "uncovered_nested n \<Longrightarrow> coherent_nested n"
  "uncovered_fields kvs \<Longrightarrow> coherent_fields kvs"
  by (induction c and n and kvs rule: csize_nsize_fsize.induct) simp_all

lemma cov_le_trans:
  "cov_le a b \<Longrightarrow> cov_le b c \<Longrightarrow> cov_le a c"
  "cov_le_nested na nb \<Longrightarrow> cov_le_nested nb nc \<Longrightarrow> cov_le_nested na nc"
  "cov_le_fields ka kb \<Longrightarrow> cov_le_fields kb kc \<Longrightarrow> cov_le_fields ka kc"
proof (induction a and na and ka arbitrary: b c and nb nc and kb kc
    rule: csize_nsize_fsize.induct)
  case (1 i t opt n r s f)
  then show ?case by (cases b; cases c) auto
next
  case 2
  then show ?case by (cases nb; cases nc) auto
next
  case (3 kvs)
  then show ?case by (cases nb; cases nc) auto
next
  case (4 e)
  then show ?case by (cases nb; cases nc) auto
next
  case (5 ls)
  then show ?case by (cases nb; cases nc) auto
next
  case (6 p)
  then show ?case by (cases nb; cases nc) auto
next
  case 7
  then show ?case by (cases kb; cases kc) auto
next
  case (8 kv rest)
  then show ?case by (cases kb; cases kc) auto
qed

lemma cov_le_fields_covered:
  "cov_le_fields kvs kvs' \<Longrightarrow> list_all (\<lambda>x. fully_covered (snd x)) kvs \<Longrightarrow>
     list_all (\<lambda>x. fully_covered (snd x)) kvs'"
  by (induction kvs arbitrary: kvs'; case_tac kvs') (auto simp: cov_le_iff)

lemma children_covered_mono:
  "cov_le_nested n n' \<Longrightarrow> children_covered t n \<Longrightarrow> children_covered t n'"
  by (cases "kind_of t"; cases n; cases n')
    (auto simp: children_covered_def cov_le_iff dest: cov_le_fields_covered)


lemma set_nested_sel [simp]:
  "unique_ident (set_nested n c) = unique_ident c" "asn1_type (set_nested n c) = asn1_type c"
  "optional (set_nested n c) = optional c" "nested (set_nested n c) = n"
  "fully_covered (set_nested n c) = fully_covered c"
  by (cases c; simp)+

lemma set_crange_sel [simp]:
  "unique_ident (set_crange r c) = unique_ident c" "asn1_type (set_crange r c) = asn1_type c"
  "optional (set_crange r c) = optional c" "nested (set_crange r c) = nested c"
  "fully_covered (set_crange r c) = fully_covered c"
  by (cases c; simp)+

lemma set_fully_covered_sel [simp]:
  "unique_ident (set_fully_covered b c) = unique_ident c"
  "asn1_type (set_fully_covered b c) = asn1_type c"
  "optional (set_fully_covered b c) = optional c" "nested (set_fully_covered b c) = nested c"
  "fully_covered (set_fully_covered b c) = b"
  by (cases c; simp)+

lemma update_coverage_Inr:
  "update_coverage c = Inr c' \<Longrightarrow>
     c' = set_fully_covered (children_covered (asn1_type c) (nested c)) c"
  by (auto simp: update_coverage_def children_covered_def split: kind.splits nested_t.splits)

lemma finish_state:
  "fst (snd (finish v c g)) = c \<or>
   fst (snd (finish v c g)) = set_fully_covered (children_covered (asn1_type c) (nested c)) c"
  by (cases "update_coverage c") (auto simp: finish_def dest: update_coverage_Inr)

lemma renested_self: "coherent c \<Longrightarrow> renested c c"
  by (simp add: renested_def cov_le_refl coherent_iff [of c])

lemma renested_keep:
  assumes "coherent c" and "renested c c'"
  shows "cov_le c c' \<and> coherent c'"
  using assms children_covered_mono [of "nested c" "nested c'" "asn1_type c"]
  by (auto simp: renested_def cov_le_iff coherent_iff)

lemma renested_finish:
  assumes "coherent c" and "renested c c'"
  shows "cov_le c (fst (snd (finish v c' g))) \<and> coherent (fst (snd (finish v c' g)))"
proof -
  let ?d = "set_fully_covered (children_covered (asn1_type c') (nested c')) c'"
  have "cov_le c ?d \<and> coherent ?d"
    using assms children_covered_mono [of "nested c" "nested c'" "asn1_type c"]
    by (auto simp: renested_def cov_le_iff coherent_iff)
  with renested_keep [OF assms] finish_state [of v c' g] show ?thesis
    by auto
qed

lemma leaf_step:
  assumes "coherent c"
  shows "cov_le c (fst (snd (leaf c x))) \<and> coherent (fst (snd (leaf c x)))"
proof (cases x)
  case (Pair r g')
  show ?thesis
  proof (cases r)
    case (Inl e)
    with Pair assms show ?thesis by (simp add: leaf_def cov_le_refl)
  next
    case (Inr v)
    with Pair renested_finish [OF assms renested_self [OF assms], of v g'] show ?thesis
      by (simp add: leaf_def)
  qed
qed

lemma seq_of_count_state:
  "seq_of_count m c g = (r, c1, g1) \<Longrightarrow> c1 = c \<or> (\<exists>r'. c1 = set_crange r' c)"
  by (auto simp: seq_of_count_def Let_def open_ended_count_def
      split: option.splits sum.splits prod.splits if_splits)

lemma cov_le_fields_put_first:
  "find P kvs = Some kv \<Longrightarrow> cov_le (snd kv) v' \<Longrightarrow> cov_le_fields kvs (put_first P v' kvs)"
  by (induction kvs) (auto simp: cov_le_refl split: if_splits)

lemma coherent_fields_put_first:
  "coherent_fields kvs \<Longrightarrow> coherent v' \<Longrightarrow> coherent_fields (put_first P v' kvs)"
  by (induction kvs) auto

lemma coherent_fields_find:
  "coherent_fields kvs \<Longrightarrow> find P kvs = Some kv \<Longrightarrow> coherent (snd kv)"
  by (induction kvs) (auto split: if_splits)


lemma fuzz_coverage_all:
  "coherent c \<Longrightarrow>
     cov_le c (fst (snd (fuzz al bl cov m c g))) \<and> coherent (fst (snd (fuzz al bl cov m c g)))"
  "coherent_fields kvs \<Longrightarrow>
     cov_le_fields kvs (fst (snd (fuzz_fields al bl cov m sc kvs g ret))) \<and>
     coherent_fields (fst (snd (fuzz_fields al bl cov m sc kvs g ret)))"
  "coherent el \<Longrightarrow>
     cov_le el (fst (snd (fuzz_elements al bl cov m n el g vs))) \<and>
     coherent (fst (snd (fuzz_elements al bl cov m n el g vs)))"
proof (induction al bl cov m c g and al bl cov m sc kvs g ret and al bl cov m n el g vs
    rule: fuzz_fuzz_fields_fuzz_elements.induct)
  case (1 al bl cov m c g)
  note coh = "1.prems"
  note eq = fuzz.simps [of al bl cov m c g]
  note self = renested_self [OF coh]
  have kept: "cov_le c c \<and> coherent c"
    using coh by (simp add: cov_le_refl)
  show ?case
  proof (cases "kind_of (asn1_type c)")
    case K_SEQUENCE
    show ?thesis
    proof (cases "nested c")
      case (NDict kvs)
      obtain r kvs' g' where ff:
        "fuzz_fields al bl cov m (fully_covered c) kvs g [] = (r, kvs', g')"
        by (cases "fuzz_fields al bl cov m (fully_covered c) kvs g []")
      from coh NDict have "coherent_fields kvs"
        by (simp add: coherent_iff)
      from "1.IH"(1) [OF K_SEQUENCE NDict this] ff
      have "cov_le_fields kvs kvs'" "coherent_fields kvs'" by simp_all
      then have rn: "renested c (set_nested (NDict kvs') c)"
        by (simp add: renested_def NDict)
      from renested_keep [OF coh rn] renested_finish [OF coh rn] ff show ?thesis
        by (cases r) (simp_all add: eq K_SEQUENCE NDict)
    qed (simp_all add: eq K_SEQUENCE kept)
  next
    case K_CHOICE
    show ?thesis
    proof (cases "nested c")
      case (NDict kvs)
      from coh NDict have cf: "coherent_fields kvs"
        by (simp add: coherent_iff)
      show ?thesis
      proof (cases al)
        case None
        note no_allowlist = None
        note eq = eq [unfolded None]
        obtain r g1 where sel: "select_key cov kvs g = (r, g1)"
          by (cases "select_key cov kvs g")
        show ?thesis
        proof (cases r)
          case (Inl e)
          then show ?thesis
            using kept by (simp add: eq K_CHOICE NDict no_allowlist sel)
        next
          case (Inr key)
          show ?thesis
          proof (cases "map_of kvs key")
            case None
            then show ?thesis
              using kept by (simp add: eq K_CHOICE NDict no_allowlist sel Inr)
          next
            case (Some v)
            note found = map_of_find [OF Some]
            obtain r' v' g' where fz: "fuzz None bl cov m v g1 = (r', v', g')"
              by (cases "fuzz None bl cov m v g1")
            from coherent_fields_find [OF cf found] have "coherent v" by simp
            from "1.IH"(2) [OF K_CHOICE NDict no_allowlist sel [symmetric] Inr Some this] fz
            have v': "cov_le v v'" "coherent v'" by (simp_all add: no_allowlist)
            have rn: "renested c (set_nested (NDict (put_child key v' kvs)) c)"
              using cov_le_fields_put_first [OF found, of v'] coherent_fields_put_first [OF cf]
                v'
              by (simp add: renested_def NDict put_child_def)
            from renested_keep [OF coh rn] renested_finish [OF coh rn] fz show ?thesis
              by (cases r') (simp_all add: eq K_CHOICE NDict no_allowlist sel Inr Some)
          qed
        qed
      next
        case (Some A)
        note eq = eq [unfolded Some]
        show ?thesis
        proof (cases "find (\<lambda>x. unique_ident (snd x) \<in> A) kvs")
          case None
          then show ?thesis
            using renested_finish [OF coh self]
            by (simp add: eq K_CHOICE NDict Some)
        next
          case found: (Some kv)
          obtain key v where kv: "kv = (key, v)" by (cases kv)
          obtain r' v' g' where fz: "fuzz (Some A) bl cov m v g = (r', v', g')"
            by (cases "fuzz (Some A) bl cov m v g")
          from coherent_fields_find [OF cf found] kv have "coherent v" by simp
          from "1.IH"(3) [OF K_CHOICE NDict Some found kv [symmetric] this] fz
          have v': "cov_le v v'" "coherent v'" by (simp_all add: Some)
          have rn: "renested c
              (set_nested (NDict (put_first (\<lambda>x. unique_ident (snd x) \<in> A) v' kvs)) c)"
            using cov_le_fields_put_first [OF found, of v'] coherent_fields_put_first [OF cf]
              v' kv
            by (simp add: renested_def NDict)
          from renested_keep [OF coh rn] renested_finish [OF coh rn] fz show ?thesis
            by (cases r') (simp_all add: eq K_CHOICE NDict Some found kv)
        qed
      qed
    qed (simp_all add: eq K_CHOICE kept)
  next
    case K_SEQUENCE_OF
    obtain r c1 g1 where cnt: "seq_of_count m c g = (r, c1, g1)"
      by (cases "seq_of_count m c g")
    from seq_of_count_state [OF cnt] self have rn1: "renested c c1"
      by (auto simp: renested_def)
    note kept1 = renested_keep [OF coh rn1]
    show ?thesis
    proof (cases r)
      case (Inl e)
      then show ?thesis
        using kept1 by (simp add: eq K_SEQUENCE_OF cnt)
    next
      case (Inr n)
      show ?thesis
      proof (cases "nested c")
        case (NElem el)
        obtain r' el' g' where fe:
          "fuzz_elements al bl cov m (nat n) el g1 [] = (r', el', g')"
          by (cases "fuzz_elements al bl cov m (nat n) el g1 []")
        from coh NElem have "coherent el"
          by (simp add: coherent_iff)
        from "1.IH"(4) [OF K_SEQUENCE_OF _ Inr _ NElem this, of "(c1, g1)" c1 g1] cnt fe
        have "cov_le el el'" "coherent el'" by simp_all
        with rn1 have rn: "renested c (set_nested (NElem el') c1)"
          by (simp add: renested_def NElem)
        from renested_keep [OF coh rn] renested_finish [OF coh rn] fe show ?thesis
          by (cases r') (simp_all add: eq K_SEQUENCE_OF cnt Inr NElem)
      qed (simp_all add: eq K_SEQUENCE_OF cnt Inr kept1)
    qed
  qed (simp_all add: eq leaf_step [OF coh] renested_finish [OF coh self] kept)
next
  case (2 al bl cov m sc g ret)
  show ?case by simp
next
  case (3 al bl cov m sc kv rest g ret)
  from "3.prems" have ckv: "coherent (snd kv)" and crest: "coherent_fields rest"
    by simp_all
  obtain skip g1 where sk: "field_skipped al cov sc (snd kv) g = (skip, g1)"
    by (cases "field_skipped al cov sc (snd kv) g")
  show ?case
  proof (cases skip)
    case True
    from "3.IH"(1) [OF sk [symmetric] True crest] ckv show ?thesis
      by (auto simp: sk True cov_le_refl split: prod.splits)
  next
    case False
    obtain r v' g2 where fz: "fuzz al bl cov m (snd kv) g1 = (r, v', g2)"
      by (cases "fuzz al bl cov m (snd kv) g1")
    from "3.IH"(2) [OF sk [symmetric] False ckv] fz
    have v': "cov_le (snd kv) v'" "coherent v'" by simp_all
    show ?thesis
    proof (cases r)
      case (Inl e)
      with fz v' crest show ?thesis
        by (simp add: sk False cov_le_refl)
    next
      case (Inr v)
      from "3.IH"(3) [OF sk [symmetric] False fz [symmetric] Inr refl crest] fz v' Inr
      show ?thesis
        by (auto simp: sk False split: prod.splits)
    qed
  qed
next
  case (4 al bl cov m el g vs)
  then show ?case by (simp add: cov_le_refl)
next
  case (5 al bl cov m n el g vs)
  obtain r el' g' where fz: "fuzz al bl cov m el g = (r, el', g')"
    by (cases "fuzz al bl cov m el g")
  from "5.IH"(1) [OF "5.prems"] fz have el': "cov_le el el'" "coherent el'"
    by simp_all
  show ?case
  proof (cases r)
    case (Inl e)
    with fz el' show ?thesis by simp
  next
    case (Inr v)
    from "5.IH"(2) [OF fz [symmetric] Inr refl el'(2)] fz el' Inr
    show ?thesis
      by (auto intro: cov_le_trans(1))
  qed
qed


lemma fuzz_calls_append: "fuzz_calls (xs @ ys) c = fuzz_calls ys (fuzz_calls xs c)"
  by (induction xs arbitrary: c) auto

lemma fuzz_calls_coverage:
  "coherent c \<Longrightarrow> cov_le c (fuzz_calls calls c) \<and> coherent (fuzz_calls calls c)"
proof (induction calls arbitrary: c)
  case Nil
  then show ?case by (simp add: cov_le_refl)
next
  case (Cons call calls)
  obtain al bl cov m g where call: "call = (al, bl, cov, m, g)"
    by (cases call)
  let ?c1 = "fst (snd (fuzz al bl cov m c g))"
  from fuzz_coverage_all(1) [OF Cons.prems] have 1: "cov_le c ?c1" "coherent ?c1"
    by simp_all
  from Cons.IH [OF 1(2)] 1(1) show ?case
    by (auto simp: call intro: cov_le_trans(1))
qed

text \<open>
  C6. Start from a tree in which no node is covered, run any calls of \<^verbatim>\<open>fuzz\<close> on it, and
  then any further calls (any arguments and random sources; calls may raise): the tree has
  the same nodes after the further calls, and every node that was fully covered before them
  is fully covered after them. \<^verbatim>\<open>reset_coverage\<close> is not among the calls.
\<close>

theorem coverage_monotone:
  "uncovered c \<Longrightarrow> cov_le (fuzz_calls before c) (fuzz_calls (before @ later) c)"
proof -
  assume "uncovered c"
  then have "coherent c"
    by (rule uncovered_coherent(1))
  then have "coherent (fuzz_calls before c)"
    using fuzz_calls_coverage by blast
  then show ?thesis
    unfolding fuzz_calls_append using fuzz_calls_coverage by blast
qed

theorem coverage_monotone_witness:
  "uncovered bool_node \<and>
   fully_covered (fuzz_calls [(None, None, False, 1, sconst 0)] bool_node) \<and>
   cov_le (fuzz_calls [(None, None, False, 1, sconst 0)] bool_node)
     (fuzz_calls ([(None, None, False, 1, sconst 0)] @ [(None, None, True, 1, sconst 1)])
        bool_node)"
proof -
  have u: "uncovered bool_node"
    by (simp add: bool_node_def)
  have "fully_covered (fuzz_calls [(None, None, False, 1, sconst 0)] bool_node)"
    by (simp add: bool_node_def fuzz.simps kind_of_def leaf_def finish_def update_coverage_def
        fuzz_BOOLEAN_def returning_def and_then_def choice_def randbelow_def)
  with u coverage_monotone [OF u, of "[(None, None, False, 1, sconst 0)]"
      "[(None, None, True, 1, sconst 1)]"]
  show ?thesis by blast
qed

subsection \<open>Pruning a tree without EXPANDABLE nodes\<close>

lemma remove_expandable_unchanged_all:
  "expandable_free c \<Longrightarrow> has_children c \<Longrightarrow> remove_expandable c = (Inr True, c)"
  "expandable_free_fields kvs \<Longrightarrow> has_children_fields kvs \<Longrightarrow>
     remove_choice kvs keys = (Inr keys, kvs)"
  "expandable_free_fields kvs' \<Longrightarrow> has_children_fields kvs' \<Longrightarrow>
     remove_sequence kvs' result keys' = (Inr (result, keys'), kvs')"
proof (induction c and kvs keys and kvs' result keys' rule: remove_expandable_remove_choice_remove_sequence.induct)
  case (1 i t opt n r s f)
  then show ?case
    by (cases "kind_of t"; cases n) (auto simp: kind_of_def split: if_splits)
next
  case (2 keys)
  show ?case by simp
next
  case (3 key "value" rest keys)
  then show ?case by simp
next
  case (4 result keys)
  show ?case by simp
next
  case (5 key "value" rest result keys)
  then show ?case by simp
qed

text \<open>
  C7, as the code has it. On a tree that contains no EXPANDABLE node and in which every
  SEQUENCE OF has its element (and every SEQUENCE, CHOICE, OPEN_TYPE and ANY its dictionary),
  \<^verbatim>\<open>remove_expandable\<close> returns \<^verbatim>\<open>True\<close> and leaves the tree unchanged. The specification
  states it for every tree without EXPANDABLE node; for a SEQUENCE OF without element line
  284 returns \<^verbatim>\<open>False\<close>, and the SEQUENCE that holds it as an optional field deletes it, as
  evaluated after the theorem.
\<close>

theorem remove_expandable_unchanged:
  "expandable_free c \<Longrightarrow> has_children c \<Longrightarrow> remove_expandable c = (Inr True, c)"
  by (rule remove_expandable_unchanged_all(1))

theorem remove_expandable_unchanged_witness:
  "expandable_free sample_tree \<and> has_children sample_tree \<and>
   remove_expandable sample_tree = (Inr True, sample_tree)"
proof -
  have a: "expandable_free sample_tree"
    by (simp add: sample_tree_def int_node_def bounded_list_def bool_node_def)
  have b: "has_children sample_tree"
    by (simp add: sample_tree_def int_node_def bounded_list_def bool_node_def kind_of_def)
  from a b remove_expandable_unchanged [OF a b] show ?thesis by simp
qed

theorem remove_expandable_childless:
  "expandable_free childless_list \<and>
   remove_expandable childless_list = (Inr False, childless_list) \<and>
   expandable_free holder \<and>
   remove_expandable holder =
     (Inr True, Container ''S'' ''SEQUENCE'' False (NDict []) None 1 False)"
  by (simp add: childless_list_def holder_def kind_of_def)

subsection \<open>CHOICE, coverage aware\<close>

lemma idx_hd: "xs \<noteq> [] \<Longrightarrow> idx xs 0 = Inr (hd xs)"
  by (cases xs) (simp_all add: idx_def)

lemma choice_in_set:
  "xs \<noteq> [] \<Longrightarrow> \<exists>x g1. choice xs g = (Inr x, g1) \<and> x \<in> set xs"
  by (simp add: choice_def randbelow_def)

lemma select_key_uncovered:
  assumes "\<exists>kv \<in> set kvs. \<not> fully_covered (snd kv)" and "distinct (map fst kvs)"
  shows "\<exists>key value g1. select_key True kvs g = (Inr key, g1) \<and>
           map_of kvs key = Some value \<and> \<not> fully_covered value"
proof -
  let ?F = "filter (\<lambda>x. \<not> fully_covered (snd x)) kvs"
  let ?ks = "map fst ?F"
  from assms(1) have ne: "?F \<noteq> []"
    by (simp add: filter_empty_conv)
  then have nf: "nested_filtered True kvs = ?F"
    by (simp add: nested_filtered_def Let_def)
  have "\<exists>key g1. select_key True kvs g = (Inr key, g1) \<and> key \<in> set ?ks"
  proof (cases "1 < length ?ks")
    case True
    with choice_in_set [of ?ks g] ne show ?thesis
      by (simp add: select_key_def nf Let_def)
  next
    case False
    from ne have "?ks \<noteq> []" by simp
    then have "hd ?ks \<in> set ?ks"
      by (rule hd_in_set)
    moreover from \<open>?ks \<noteq> []\<close> have "idx ?ks 0 = Inr (hd ?ks)"
      by (rule idx_hd)
    ultimately have "idx ?ks 0 = Inr (hd ?ks)" "hd ?ks \<in> set ?ks"
      by blast+
    with False show ?thesis
      by (simp add: select_key_def nf Let_def)
  qed
  then obtain key g1 where sel: "select_key True kvs g = (Inr key, g1)" and "key \<in> set ?ks"
    by blast
  then obtain "value" where "(key, value) \<in> set kvs" "\<not> fully_covered value"
    by auto
  with assms(2) have "map_of kvs key = Some value"
    by simp
  with sel \<open>\<not> fully_covered value\<close> show ?thesis
    by blast
qed


lemma three_scalars_step:
  assumes "\<not> (a \<and> b \<and> c)"
  shows "\<exists>k v g1 a' b' c'.
     fuzz None None True 1 (three_scalars p a b c) g =
       (Inr (VTuple [VStr k, v]), three_scalars (a' \<and> b' \<and> c') a' b' c', g1) \<and>
     (k = ''A'' \<and> \<not> a \<and> a' \<and> b' = b \<and> c' = c \<or>
      k = ''B'' \<and> \<not> b \<and> b' \<and> a' = a \<and> c' = c \<or>
      k = ''C'' \<and> \<not> c \<and> c' \<and> a' = a \<and> b' = b)"
proof -
  have "\<exists>kv \<in> set (scalar_fields a b c). \<not> fully_covered (snd kv)"
    using assms by (auto simp: scalar_fields_def)
  moreover have "distinct (map fst (scalar_fields a b c))"
    by (simp add: scalar_fields_def)
  ultimately obtain key "value" g1 where
    sel: "select_key True (scalar_fields a b c) g = (Inr key, g1)" and
    look: "map_of (scalar_fields a b c) key = Some value" and
    unc: "\<not> fully_covered value"
    using select_key_uncovered [of "scalar_fields a b c" g] by blast
  from look unc consider
      (A) "key = ''A''" "\<not> a" | (B) "key = ''B''" "\<not> b" | (C) "key = ''C''" "\<not> c"
    by (auto simp: scalar_fields_def split: if_splits)
  then show ?thesis
  proof cases
    case A
    have "fuzz None None True 1 (three_scalars p a b c) g =
       (Inr (VTuple [VStr ''A'', VBool ([True, False] ! (shd g1 mod 2))]),
        three_scalars (True \<and> b \<and> c) True b c, stl g1)"
      using sel A
      by (simp add: three_scalars_def fuzz.simps kind_of_def)
        (simp add: scalar_fields_def fuzz.simps kind_of_def leaf_def finish_def
          update_coverage_def fuzz_BOOLEAN_def returning_def and_then_def choice_def
          randbelow_def put_child_def numeral_2_eq_2)
    with A show ?thesis by blast
  next
    case B
    have "fuzz None None True 1 (three_scalars p a b c) g =
       (Inr (VTuple [VStr ''B'', VInt 0]), three_scalars (a \<and> True \<and> c) a True c, g1)"
      using sel B
      by (simp add: three_scalars_def fuzz.simps kind_of_def)
        (simp add: scalar_fields_def fuzz.simps kind_of_def leaf_def finish_def
          update_coverage_def put_child_def)
    with B show ?thesis by blast
  next
    case C
    have "fuzz None None True 1 (three_scalars p a b c) g =
       (Inr (VTuple [VStr ''C'', VInt 0]), three_scalars (a \<and> b \<and> True) a b True, stl g1)"
      using sel C
      by (simp add: three_scalars_def fuzz.simps kind_of_def)
        (simp add: scalar_fields_def fuzz.simps kind_of_def leaf_def finish_def
          update_coverage_def fuzz_INTEGER_def returning_def and_then_def idx_def
          py_randrange_def randrange_def randbelow_def put_child_def)
    with C show ?thesis by blast
  qed
qed

lemma three_scalars_exhausted:
  "\<exists>k1 v1 c1 g1 k2 v2 c2 g2 k3 v3 c3 g3.
     fuzz None None True 1 (three_scalars False False False False) g =
       (Inr (VTuple [VStr k1, v1]), c1, g1) \<and>
     fuzz None None True 1 c1 g1 = (Inr (VTuple [VStr k2, v2]), c2, g2) \<and>
     fuzz None None True 1 c2 g2 = (Inr (VTuple [VStr k3, v3]), c3, g3) \<and>
     distinct [k1, k2, k3] \<and> c3 = three_scalars True True True True"
proof -
  obtain k1 v1 g1 a1 b1 c1 where
    s1: "fuzz None None True 1 (three_scalars False False False False) g =
       (Inr (VTuple [VStr k1, v1]), three_scalars (a1 \<and> b1 \<and> c1) a1 b1 c1, g1)" and
    d1: "k1 = ''A'' \<and> a1 \<and> \<not> b1 \<and> \<not> c1 \<or> k1 = ''B'' \<and> b1 \<and> \<not> a1 \<and> \<not> c1 \<or>
         k1 = ''C'' \<and> c1 \<and> \<not> a1 \<and> \<not> b1"
    using three_scalars_step [of False False False False g] by auto
  from d1 have n1: "\<not> (a1 \<and> b1 \<and> c1)" by auto
  obtain k2 v2 g2 a2 b2 c2 where
    s2: "fuzz None None True 1 (three_scalars (a1 \<and> b1 \<and> c1) a1 b1 c1) g1 =
       (Inr (VTuple [VStr k2, v2]), three_scalars (a2 \<and> b2 \<and> c2) a2 b2 c2, g2)" and
    d2: "k2 = ''A'' \<and> \<not> a1 \<and> a2 \<and> b2 = b1 \<and> c2 = c1 \<or>
         k2 = ''B'' \<and> \<not> b1 \<and> b2 \<and> a2 = a1 \<and> c2 = c1 \<or>
         k2 = ''C'' \<and> \<not> c1 \<and> c2 \<and> a2 = a1 \<and> b2 = b1"
    using three_scalars_step [OF n1, of "a1 \<and> b1 \<and> c1" g1] by auto
  from d1 d2 have n2: "\<not> (a2 \<and> b2 \<and> c2)" by auto
  obtain k3 v3 g3 a3 b3 c3 where
    s3: "fuzz None None True 1 (three_scalars (a2 \<and> b2 \<and> c2) a2 b2 c2) g2 =
       (Inr (VTuple [VStr k3, v3]), three_scalars (a3 \<and> b3 \<and> c3) a3 b3 c3, g3)" and
    d3: "k3 = ''A'' \<and> \<not> a2 \<and> a3 \<and> b3 = b2 \<and> c3 = c2 \<or>
         k3 = ''B'' \<and> \<not> b2 \<and> b3 \<and> a3 = a2 \<and> c3 = c2 \<or>
         k3 = ''C'' \<and> \<not> c2 \<and> c3 \<and> a3 = a2 \<and> b3 = b2"
    using three_scalars_step [OF n2, of "a2 \<and> b2 \<and> c2" g2] by auto
  from d1 d2 d3 have "distinct [k1, k2, k3]" "a3 \<and> b3 \<and> c3"
    by auto
  with s1 s2 s3 show ?thesis
    by (intro exI [of _ k1] exI [of _ v1] exI [of _ g1] exI [of _ k2] exI [of _ v2]
        exI [of _ g2] exI [of _ k3] exI [of _ v3] exI [of _ g3]
        exI [of _ "three_scalars (a1 \<and> b1 \<and> c1) a1 b1 c1"]
        exI [of _ "three_scalars (a2 \<and> b2 \<and> c2) a2 b2 c2"]
        exI [of _ "three_scalars (a3 \<and> b3 \<and> c3) a3 b3 c3"]) simp
qed


lemma fuzz_CHOICE_selected:
  assumes "kind_of (asn1_type c) = K_CHOICE" and "nested c = NDict kvs"
    and "select_key cov kvs g = (Inr key, g1)" and "map_of kvs key = Some value"
  shows "fst (fuzz None bl cov m c g) =
     (case fst (fuzz None bl cov m value g1) of
        Inl e \<Rightarrow> Inl e
      | Inr v \<Rightarrow> Inr (VTuple [VStr key, v]))"
proof -
  obtain r v' g' where fz: "fuzz None bl cov m value g1 = (r, v', g')"
    by (cases "fuzz None bl cov m value g1")
  have "kind_of (asn1_type (set_nested (NDict (put_child key v' kvs)) c)) = K_CHOICE"
    "nested (set_nested (NDict (put_child key v' kvs)) c) = NDict (put_child key v' kvs)"
    using assms(1) by (cases c; simp)+
  then show ?thesis
    using assms fz
    by (subst fuzz.simps) (simp add: finish_def update_coverage_def split: sum.splits)
qed

text \<open>
  C8. Let a CHOICE, OPEN_TYPE or ANY node have a child that is not fully covered. A coverage
  aware call of \<^verbatim>\<open>fuzz\<close> without allowlist selects a key whose child is not fully covered,
  and returns that key with what the child generates (or raises what the child raises).
  Since this holds in every state of the tree, no covered child is selected while an
  uncovered one is left. On the CHOICE \<open>{A: BOOLEAN, B: NULL, C: INTEGER (0, 1)}\<close>, for every
  random source, three calls in a row return three distinct keys and leave the CHOICE and
  its three children fully covered.
\<close>

theorem fuzz_CHOICE_uncovered_first:
  assumes "asn1_type c \<in> {''CHOICE'', ''OPEN_TYPE'', ''ANY''}"
    and "nested c = NDict kvs"
    and "distinct (map fst kvs)"
    and "\<exists>kv \<in> set kvs. \<not> fully_covered (snd kv)"
  shows
    "(\<exists>key value g1.
        select_key True kvs g = (Inr key, g1) \<and> map_of kvs key = Some value \<and>
        \<not> fully_covered value \<and>
        fst (fuzz None blocklist True max_seq_of_count c g) =
          (case fst (fuzz None blocklist True max_seq_of_count value g1) of
             Inl e \<Rightarrow> Inl e
           | Inr v \<Rightarrow> Inr (VTuple [VStr key, v]))) \<and>
     (\<forall>g0. \<exists>k1 v1 c1 g1 k2 v2 c2 g2 k3 v3 c3 g3.
        fuzz None None True 1 (three_scalars False False False False) g0 =
          (Inr (VTuple [VStr k1, v1]), c1, g1) \<and>
        fuzz None None True 1 c1 g1 = (Inr (VTuple [VStr k2, v2]), c2, g2) \<and>
        fuzz None None True 1 c2 g2 = (Inr (VTuple [VStr k3, v3]), c3, g3) \<and>
        distinct [k1, k2, k3] \<and> c3 = three_scalars True True True True)"
proof -
  have k: "kind_of (asn1_type c) = K_CHOICE"
    using assms(1) by (auto simp: kind_of_def)
  obtain key "value" g1 where
    sel: "select_key True kvs g = (Inr key, g1)" and look: "map_of kvs key = Some value"
    and unc: "\<not> fully_covered value"
    using select_key_uncovered [OF assms(4,3), of g] by blast
  from fuzz_CHOICE_selected [OF k assms(2) sel look] sel look unc
  have "\<exists>key value g1.
        select_key True kvs g = (Inr key, g1) \<and> map_of kvs key = Some value \<and>
        \<not> fully_covered value \<and>
        fst (fuzz None blocklist True max_seq_of_count c g) =
          (case fst (fuzz None blocklist True max_seq_of_count value g1) of
             Inl e \<Rightarrow> Inl e
           | Inr v \<Rightarrow> Inr (VTuple [VStr key, v]))"
    by blast
  with three_scalars_exhausted show ?thesis
    by blast
qed

theorem fuzz_CHOICE_uncovered_first_witness:
  "\<exists>key value g1.
      select_key True (scalar_fields True False False) (sconst 0) = (Inr key, g1) \<and>
      map_of (scalar_fields True False False) key = Some value \<and>
      \<not> fully_covered value \<and>
      fst (fuzz None None True 1 (three_scalars False True False False) (sconst 0)) =
        (case fst (fuzz None None True 1 value g1) of
           Inl e \<Rightarrow> Inl e
         | Inr v \<Rightarrow> Inr (VTuple [VStr key, v]))"
proof -
  have a: "asn1_type (three_scalars False True False False) \<in> {''CHOICE'', ''OPEN_TYPE'', ''ANY''}"
    and b: "nested (three_scalars False True False False) = NDict (scalar_fields True False False)"
    by (simp_all add: three_scalars_def)
  have c: "distinct (map fst (scalar_fields True False False))"
    and d: "\<exists>kv \<in> set (scalar_fields True False False). \<not> fully_covered (snd kv)"
    by (simp_all add: scalar_fields_def)
  from fuzz_CHOICE_uncovered_first [OF a b c d, of "sconst 0" None 1] show ?thesis
    by blast
qed

subsection \<open>EXPANDABLE nodes\<close>

text \<open>
  C9. Calling \<^verbatim>\<open>fuzz\<close> on an EXPANDABLE node raises (a \<^verbatim>\<open>ValueError\<close>, line 125) instead
  of returning a value, whatever the arguments, the other attributes of the node and the
  random source; the node is left as it was and nothing is drawn.
\<close>

theorem fuzz_EXPANDABLE_raises:
  "fuzz allowlist blocklist coverage_aware max_seq_of_count
     (Container i ''EXPANDABLE'' opt n r s f) g =
   (Inl ValueError, Container i ''EXPANDABLE'' opt n r s f, g)"
  by (simp add: fuzz.simps kind_of_def)

subsection \<open>The blocklist\<close>

lemma blocklist_ignored_all:
  "fuzz al bl cov m c g = fuzz al bl' cov m c g"
  "fuzz_fields al bl cov m sc kvs g ret = fuzz_fields al bl' cov m sc kvs g ret"
  "fuzz_elements al bl cov m n el g vs = fuzz_elements al bl' cov m n el g vs"
proof (induction al bl cov m c g and al bl cov m sc kvs g ret and al bl cov m n el g vs
    rule: fuzz_fuzz_fields_fuzz_elements.induct)
  case (1 al bl cov m c g)
  note eq = fuzz.simps [of al bl cov m c g] fuzz.simps [of al bl' cov m c g]
  show ?case
  proof (cases "kind_of (asn1_type c)")
    case K_SEQUENCE
    show ?thesis
    proof (cases "nested c")
      case (NDict kvs)
      from "1.IH"(1) [OF K_SEQUENCE NDict] show ?thesis
        by (simp add: eq K_SEQUENCE NDict)
    qed (simp_all add: eq K_SEQUENCE)
  next
    case K_CHOICE
    show ?thesis
    proof (cases "nested c")
      case (NDict kvs)
      show ?thesis
      proof (cases al)
        case None
        note no_allowlist = None
        note eq = eq [unfolded None]
        obtain r g1 where sel: "select_key cov kvs g = (r, g1)"
          by (cases "select_key cov kvs g")
        show ?thesis
        proof (cases r)
          case (Inl e)
          then show ?thesis
            by (simp add: eq K_CHOICE NDict no_allowlist sel)
        next
          case (Inr key)
          show ?thesis
          proof (cases "map_of kvs key")
            case None
            then show ?thesis
              by (simp add: eq K_CHOICE NDict no_allowlist sel Inr)
          next
            case (Some v)
            from "1.IH"(2) [OF K_CHOICE NDict no_allowlist sel [symmetric] Inr Some]
            show ?thesis
              by (simp add: eq K_CHOICE NDict no_allowlist sel Inr Some)
          qed
        qed
      next
        case (Some A)
        note eq = eq [unfolded Some]
        show ?thesis
        proof (cases "find (\<lambda>x. unique_ident (snd x) \<in> A) kvs")
          case None
          then show ?thesis
            by (simp add: eq K_CHOICE NDict Some)
        next
          case found: (Some kv)
          obtain key v where kv: "kv = (key, v)" by (cases kv)
          from "1.IH"(3) [OF K_CHOICE NDict Some found kv [symmetric]]
          show ?thesis
            by (simp add: eq K_CHOICE NDict Some found kv)
        qed
      qed
    qed (simp_all add: eq K_CHOICE)
  next
    case K_SEQUENCE_OF
    obtain r c1 g1 where cnt: "seq_of_count m c g = (r, c1, g1)"
      by (cases "seq_of_count m c g")
    show ?thesis
    proof (cases r)
      case (Inl e)
      then show ?thesis
        by (simp add: eq K_SEQUENCE_OF cnt)
    next
      case (Inr n)
      show ?thesis
      proof (cases "nested c")
        case (NElem el)
        from "1.IH"(4) [OF K_SEQUENCE_OF _ Inr _ NElem, of "(c1, g1)" c1 g1] cnt
        show ?thesis
          by (simp add: eq K_SEQUENCE_OF cnt Inr NElem)
      qed (simp_all add: eq K_SEQUENCE_OF cnt Inr)
    qed
  qed (simp_all add: eq)
next
  case (2 al bl cov m sc g ret)
  show ?case by (simp add: fuzz_fields.simps)
next
  case (3 al bl cov m sc kv rest g ret)
  obtain skip g1 where sk: "field_skipped al cov sc (snd kv) g = (skip, g1)"
    by (cases "field_skipped al cov sc (snd kv) g")
  show ?case
  proof (cases skip)
    case True
    from "3.IH"(1) [OF sk [symmetric] True] show ?thesis
      by (simp add: fuzz_fields.simps sk True)
  next
    case False
    note ih1 = "3.IH"(2) [OF sk [symmetric] False]
    obtain r v' g2 where fz: "fuzz al bl cov m (snd kv) g1 = (r, v', g2)"
      by (cases "fuzz al bl cov m (snd kv) g1")
    show ?thesis
    proof (cases r)
      case (Inl e)
      with fz ih1 show ?thesis
        by (simp add: fuzz_fields.simps sk False)
    next
      case (Inr v)
      from "3.IH"(3) [OF sk [symmetric] False fz [symmetric] Inr refl] fz ih1 Inr
      show ?thesis
        by (simp add: fuzz_fields.simps sk False)
    qed
  qed
next
  case (4 al bl cov m el g vs)
  show ?case by (simp add: fuzz_elements.simps)
next
  case (5 al bl cov m n el g vs)
  obtain r el' g' where fz: "fuzz al bl cov m el g = (r, el', g')"
    by (cases "fuzz al bl cov m el g")
  show ?case
  proof (cases r)
    case (Inl e)
    with fz "5.IH"(1) show ?thesis by (simp add: fuzz_elements.simps)
  next
    case (Inr v)
    from "5.IH"(2) [OF fz [symmetric] Inr refl] fz "5.IH"(1) Inr
    show ?thesis by (simp add: fuzz_elements.simps)
  qed
qed

text \<open>
  C10. Two calls of \<^verbatim>\<open>fuzz\<close> that differ only in the blocklist (any two sets, or \<^verbatim>\<open>None\<close>),
  on the same node in the same state and with the same random source, return the same
  value or exception and leave the same tree and the same random source.
\<close>

theorem fuzz_blocklist_ignored:
  "fuzz allowlist blocklist coverage_aware max_seq_of_count c g =
   fuzz allowlist blocklist' coverage_aware max_seq_of_count c g"
  by (rule blocklist_ignored_all(1))

end
